theory Spec2Isabelle
  imports Complex_Main
begin

section \<open>The TicTacToe example game (examples/TicTacToe/TicTacToe.cpp)\<close>

text \<open>
  \<^verbatim>\<open>char board[3][3]\<close> is a function from the two indices to the cell; only the indices
  \<open>0..2\<close> exist in the program, and no access below reads or writes the function elsewhere.
  The cell values are \<open>CHR ''x''\<close>, \<open>CHR ''o''\<close> and \<open>CHR '' ''\<close> (empty);
  \<open>winner\<close> additionally takes \<open>CHR ''d''\<close> (draw).
\<close>

record TicTacToe_state =
  board :: "int \<Rightarrow> int \<Rightarrow> char"
  turn :: char
  winner :: char

datatype TicTacToe_move = TicTacToe_move (move_x: int) (move_y: int) (move_player: char)

datatype error = Out_of_bounds | Null_dereference

text \<open>\<^verbatim>\<open>player_won\<close>: the three rows and columns (the loop over \<open>i\<close>), then the diagonals.
  The warning printed for an unknown player does not change the result.\<close>

definition player_won :: "TicTacToe_state \<Rightarrow> char \<Rightarrow> bool" where
  "player_won s p =
     (list_ex (\<lambda>i. (board s i 0 = p \<and> board s i 1 = p \<and> board s i 2 = p) \<or>
                    (board s 0 i = p \<and> board s 1 i = p \<and> board s 2 i = p)) [0, 1, 2]
      \<or> (board s 0 0 = p \<and> board s 1 1 = p \<and> board s 2 2 = p)
      \<or> (board s 0 2 = p \<and> board s 1 1 = p \<and> board s 2 0 = p))"

text \<open>The \<^verbatim>\<open>all_taken\<close> flag of \<^verbatim>\<open>calculate_winner\<close>: no cell \<open>board[i / 3][i % 3]\<close>,
  \<open>i = 0..8\<close>, is empty.\<close>

definition all_taken :: "TicTacToe_state \<Rightarrow> bool" where
  "all_taken s = list_all (\<lambda>i. board s (i div 3) (i mod 3) \<noteq> CHR '' '') [0..8]"

definition calculate_winner :: "TicTacToe_state \<Rightarrow> char" where
  "calculate_winner s =
     (if player_won s (CHR ''x'') then CHR ''x''
      else if player_won s (CHR ''o'') then CHR ''o''
      else if all_taken s then CHR ''d''
      else CHR '' '')"

text \<open>The default constructor: empty board, \<open>x\<close> to move, winner computed from the board.\<close>

definition TicTacToe_state_new :: TicTacToe_state where
  "TicTacToe_state_new =
     (let s = \<lparr>board = (\<lambda>i j. CHR '' ''), turn = CHR ''x'', winner = CHR '' ''\<rparr>
      in s\<lparr>winner := calculate_winner s\<rparr>)"

definition is_terminal :: "TicTacToe_state \<Rightarrow> bool" where
  "is_terminal s = (winner s \<noteq> CHR '' '')"

definition change_turn :: "TicTacToe_state \<Rightarrow> TicTacToe_state" where
  "change_turn s = s\<lparr>turn := (if turn s = CHR ''x'' then CHR ''o'' else CHR ''x'')\<rparr>"

text \<open>A move addresses a cell of \<^verbatim>\<open>board[3][3]\<close> only when both indices are in \<open>0..2\<close>.\<close>

definition in_bounds :: "TicTacToe_move \<Rightarrow> bool" where
  "in_bounds m = (0 \<le> move_x m \<and> move_x m < 3 \<and> 0 \<le> move_y m \<and> move_y m < 3)"

text \<open>
  The source indexes \<^verbatim>\<open>board[m->x][m->y]\<close> without a check. The nine chars of the array are
  contiguous, row after row, and \<^verbatim>\<open>board[x][y]\<close> is the char at offset \<open>3 * x + y\<close> from its
  start. For indices in \<open>0..2\<close> that is the cell \<open>(x, y)\<close>. Other indices whose offset is
  still in \<open>0..8\<close> land on the cell at that offset (\<^verbatim>\<open>board[0][5]\<close> is \<^verbatim>\<open>board[1][2]\<close>). An offset
  outside \<open>0..8\<close> leaves the array, and what lies there is not fixed by the source: the error
  \<open>Out_of_bounds\<close>.
\<close>

definition cell_offset :: "TicTacToe_move \<Rightarrow> int" where
  "cell_offset m = 3 * move_x m + move_y m"

text \<open>\<^verbatim>\<open>next_state\<close>: \<open>Inr None\<close> is the \<^verbatim>\<open>NULL\<close> return, \<open>Inr (Some s')\<close> the new state
  (a copy of the receiver, then modified).\<close>

definition next_state :: "TicTacToe_state \<Rightarrow> TicTacToe_move \<Rightarrow> error + TicTacToe_state option" where
  "next_state s m =
     (if cell_offset m < 0 \<or> 8 < cell_offset m then Inl Out_of_bounds
      else
        let i = cell_offset m div 3;
            j = cell_offset m mod 3;
            new_state = s
        in if board new_state i j = CHR '' '' then
             let played = new_state\<lparr>board :=
                   (board new_state)(i := (board new_state i)(j := move_player m))\<rparr>;
                 checked = played\<lparr>winner := calculate_winner played\<rparr>
             in Inr (Some (change_turn checked))
           else Inr None)"

text \<open>\<^verbatim>\<open>actions_to_try\<close>: the queue as a list, front first.\<close>

definition actions_to_try :: "TicTacToe_state \<Rightarrow> TicTacToe_move list" where
  "actions_to_try s =
     map (\<lambda>i. TicTacToe_move (i div 3) (i mod 3) (turn s))
       (filter (\<lambda>i. board s (i div 3) (i mod 3) = CHR '' '') [0..8])"

text \<open>What the constructor and \<^verbatim>\<open>next_state\<close> establish for every state the program builds:
  the cached winner is the one computed from the board, and the turn is a player.\<close>

definition consistent :: "TicTacToe_state \<Rightarrow> bool" where
  "consistent s = (winner s = calculate_winner s \<and> (turn s = CHR ''x'' \<or> turn s = CHR ''o''))"

text \<open>Playing a list of moves from a state, stopping at the first failure.\<close>

fun play :: "TicTacToe_state \<Rightarrow> TicTacToe_move list \<Rightarrow> error + TicTacToe_state option" where
  "play s [] = Inr (Some s)"
| "play s (m # ms) =
     (case next_state s m of
        Inr (Some s') \<Rightarrow> play s' ms
      | r \<Rightarrow> r)"

text \<open>Five moves that lead to the position \<^verbatim>\<open>x x x / o o _ / _ _ _\<close>.\<close>

definition won_with_gaps :: "TicTacToe_move list" where
  "won_with_gaps =
     [TicTacToe_move 0 0 (CHR ''x''), TicTacToe_move 1 0 (CHR ''o''),
      TicTacToe_move 0 1 (CHR ''x''), TicTacToe_move 1 1 (CHR ''o''),
      TicTacToe_move 0 2 (CHR ''x'')]"

text \<open>That position: \<open>x\<close> has won, \<open>o\<close> would be to move, four cells are empty.\<close>

definition won_state :: TicTacToe_state where
  "won_state =
     \<lparr>board = (\<lambda>i j. CHR '' '')
        (0 := (\<lambda>j. CHR '' '')(0 := CHR ''x'', 1 := CHR ''x'', 2 := CHR ''x''),
         1 := (\<lambda>j. CHR '' '')(0 := CHR ''o'', 1 := CHR ''o'')),
      turn = CHR ''o'', winner = CHR ''x''\<rparr>"

text \<open>The empty board after \<open>x\<close> has taken cell \<open>(1, 2)\<close>.\<close>

definition x_at_1_2 :: TicTacToe_state where
  "x_at_1_2 =
     \<lparr>board = (\<lambda>i j. CHR '' '')(1 := (\<lambda>j. CHR '' '')(2 := CHR ''x'')),
      turn = CHR ''o'', winner = CHR '' ''\<rparr>"

text \<open>A drawn position, \<^verbatim>\<open>x o x / x o o / o x x\<close>.\<close>

definition drawn_state :: TicTacToe_state where
  "drawn_state =
     \<lparr>board = (\<lambda>i j. CHR '' '')
        (0 := (\<lambda>j. CHR '' '')(0 := CHR ''x'', 1 := CHR ''o'', 2 := CHR ''x''),
         1 := (\<lambda>j. CHR '' '')(0 := CHR ''x'', 1 := CHR ''o'', 2 := CHR ''o''),
         2 := (\<lambda>j. CHR '' '')(0 := CHR ''o'', 1 := CHR ''x'', 2 := CHR ''x'')),
      turn = CHR ''o'', winner = CHR ''d''\<rparr>"

text \<open>The position \<^verbatim>\<open>x x _ / o o _ / _ _ _\<close> with \<open>x\<close> to move: nobody has won yet.\<close>

definition x_to_win :: TicTacToe_state where
  "x_to_win =
     \<lparr>board = (\<lambda>i j. CHR '' '')
        (0 := (\<lambda>j. CHR '' '')(0 := CHR ''x'', 1 := CHR ''x''),
         1 := (\<lambda>j. CHR '' '')(0 := CHR ''o'', 1 := CHR ''o'')),
      turn = CHR ''x'', winner = CHR '' ''\<rparr>"

text \<open>
  What ``the winner computed from a board'' is, written out on the cells and independently
  of the loops of \<^verbatim>\<open>player_won\<close> and \<^verbatim>\<open>calculate_winner\<close>: a player with one of the eight lines,
  \<open>x\<close> first; else a draw when no cell is empty; else nobody yet.
\<close>

definition three_in_a_row :: "(int \<Rightarrow> int \<Rightarrow> char) \<Rightarrow> char \<Rightarrow> bool" where
  "three_in_a_row b p =
     ((b 0 0 = p \<and> b 0 1 = p \<and> b 0 2 = p) \<or>
      (b 1 0 = p \<and> b 1 1 = p \<and> b 1 2 = p) \<or>
      (b 2 0 = p \<and> b 2 1 = p \<and> b 2 2 = p) \<or>
      (b 0 0 = p \<and> b 1 0 = p \<and> b 2 0 = p) \<or>
      (b 0 1 = p \<and> b 1 1 = p \<and> b 2 1 = p) \<or>
      (b 0 2 = p \<and> b 1 2 = p \<and> b 2 2 = p) \<or>
      (b 0 0 = p \<and> b 1 1 = p \<and> b 2 2 = p) \<or>
      (b 0 2 = p \<and> b 1 1 = p \<and> b 2 0 = p))"

definition board_full :: "(int \<Rightarrow> int \<Rightarrow> char) \<Rightarrow> bool" where
  "board_full b = (\<forall>x\<in>{0, 1, 2}. \<forall>y\<in>{0, 1, 2}. b x y \<noteq> CHR '' '')"

definition winner_of_board :: "(int \<Rightarrow> int \<Rightarrow> char) \<Rightarrow> char" where
  "winner_of_board b =
     (if three_in_a_row b (CHR ''x'') then CHR ''x''
      else if three_in_a_row b (CHR ''o'') then CHR ''o''
      else if board_full b then CHR ''d''
      else CHR '' '')"

subsection \<open>The simulations\<close>

text \<open>The score of a finished game, as both simulations compute it from the winner:
  \<^verbatim>\<open>(winner == 'x') ? 1.0 : (winner == 'd') ? 0.5 : 0.0\<close>.\<close>

definition result_of_winner :: "char \<Rightarrow> real" where
  "result_of_winner w = (if w = CHR ''x'' then 1 else if w = CHR ''d'' then 1 / 2 else 0)"

text \<open>The deque \<^verbatim>\<open>available\<close>: the empty cells \<open>i = 0..8\<close>, each pushed at the front.\<close>

definition available_cells :: "TicTacToe_state \<Rightarrow> int list" where
  "available_cells s = rev (filter (\<lambda>i. board s (i div 3) (i mod 3) = CHR '' '') [0..8])"

text \<open>
  The \<^verbatim>\<open>do ... while\<close> loop of \<^verbatim>\<open>rollout\<close>. Each draw \<^verbatim>\<open>dis(gen)\<close> of the uniform distribution on
  \<open>0 .. size - 1\<close> is some index in that range: \<open>rnd k\<close> is an arbitrary number for the
  \<open>k\<close>-th draw, reduced into the range, so that every sequence of draws is covered.
  The loop returns the state it stopped at; \<open>Inr None\<close> is the exit through
  \<^verbatim>\<open>available.empty()\<close> (which returns 0.0), and a null \<^verbatim>\<open>next_state\<close> would be dereferenced by the
  loop condition.
\<close>

function rollout_loop ::
  "(nat \<Rightarrow> nat) \<Rightarrow> nat \<Rightarrow> TicTacToe_state \<Rightarrow> int list \<Rightarrow> error + TicTacToe_state option" where
  "rollout_loop rnd k curstate available =
     (if available = [] then Inr None
      else
        let r = rnd k mod length available;
            a = available ! r
        in case next_state curstate (TicTacToe_move (a div 3) (a mod 3) (turn curstate)) of
             Inl e \<Rightarrow> Inl e
           | Inr None \<Rightarrow> Inl Null_dereference
           | Inr (Some next) \<Rightarrow>
               if is_terminal next then Inr (Some next)
               else rollout_loop rnd (Suc k) next (take r available @ drop (Suc r) available))"
  by pat_completeness auto
termination
proof (relation "measure (\<lambda>(rnd, k, curstate, available). length available)")
  show "wf (measure (\<lambda>(rnd, k, curstate, available). length available))"
    by simp
next
  fix rnd :: "nat \<Rightarrow> nat" and k curstate and available :: "int list" and r a y z
  assume "available \<noteq> []" and "r = rnd k mod length available"
  then have "r < length available"
    by simp
  then show "((rnd, Suc k, z, take r available @ drop (Suc r) available), rnd, k, curstate, available)
      \<in> measure (\<lambda>(rnd, k, curstate, available). length available)"
    by simp
qed

declare rollout_loop.simps [simp del]

definition rollout :: "(nat \<Rightarrow> nat) \<Rightarrow> TicTacToe_state \<Rightarrow> error + real" where
  "rollout rnd s =
     (if is_terminal s then Inr (result_of_winner (winner s))
      else case rollout_loop rnd 0 s (available_cells s) of
             Inl e \<Rightarrow> Inl e
           | Inr None \<Rightarrow> Inr 0
           | Inr (Some final) \<Rightarrow> Inr (result_of_winner (winner final)))"

text \<open>
  The first two loops of \<^verbatim>\<open>find_best_heuristic_move\<close> have one shape: the first available
  position at which a move of player \<open>p\<close> makes \<open>p\<close> the winner (\<open>p\<close> is the player to move
  in the first loop, the opponent in the second).
\<close>

fun first_winning :: "TicTacToe_state \<Rightarrow> char \<Rightarrow> int list \<Rightarrow> error + int option" where
  "first_winning state p [] = Inr None"
| "first_winning state p (pos # rest) =
     (case next_state state (TicTacToe_move (pos div 3) (pos mod 3) p) of
        Inl e \<Rightarrow> Inl e
      | Inr None \<Rightarrow> Inl Null_dereference
      | Inr (Some test_state) \<Rightarrow>
          if winner test_state = p then Inr (Some pos) else first_winning state p rest)"

text \<open>\<^verbatim>\<open>find_best_heuristic_move\<close>: win, block, centre, a corner in the order 0, 2, 6, 8,
  else a random available position (\<open>raw\<close> is the number behind that draw).\<close>

definition find_best_heuristic_move :: "nat \<Rightarrow> TicTacToe_state \<Rightarrow> int list \<Rightarrow> error + int" where
  "find_best_heuristic_move raw state available =
     (case first_winning state (turn state) available of
        Inl e \<Rightarrow> Inl e
      | Inr (Some pos) \<Rightarrow> Inr pos
      | Inr None \<Rightarrow>
          (case first_winning state (if turn state = CHR ''x'' then CHR ''o'' else CHR ''x'') available of
             Inl e \<Rightarrow> Inl e
           | Inr (Some pos) \<Rightarrow> Inr pos
           | Inr None \<Rightarrow>
               if 4 \<in> set available then Inr 4
               else (case find (\<lambda>corner. corner \<in> set available) [0, 2, 6, 8] of
                       Some corner \<Rightarrow> Inr corner
                     | None \<Rightarrow>
                         if available = [] then Inl Out_of_bounds
                         else Inr (available ! (raw mod length available)))))"

lemma first_winning_member:
  "first_winning state p available = Inr (Some pos) \<Longrightarrow> pos \<in> set available"
  by (induction available) (auto split: sum.splits option.splits if_splits)

lemma find_best_heuristic_move_member:
  assumes "find_best_heuristic_move raw state available = Inr best"
  shows "best \<in> set available"
proof -
  have c: "find (\<lambda>corner. corner \<in> set available) [0, 2, 6, 8] = Some best \<Longrightarrow> best \<in> set available"
    by (auto split: if_splits)
  from assms show ?thesis
    unfolding find_best_heuristic_move_def
    by (auto split: sum.splits option.splits if_splits dest: first_winning_member c)
qed

text \<open>The loop of \<^verbatim>\<open>heuristic_rollout\<close>; the chosen position is erased from \<^verbatim>\<open>available\<close> at its
  first occurrence.\<close>

function heuristic_rollout_loop ::
  "(nat \<Rightarrow> nat) \<Rightarrow> nat \<Rightarrow> TicTacToe_state \<Rightarrow> int list \<Rightarrow> error + TicTacToe_state option" where
  "heuristic_rollout_loop rnd k curstate available =
     (if available = [] then Inr None
      else
        case find_best_heuristic_move (rnd k) curstate available of
          Inl e \<Rightarrow> Inl e
        | Inr best_move \<Rightarrow>
            (case next_state curstate
                    (TicTacToe_move (best_move div 3) (best_move mod 3) (turn curstate)) of
               Inl e \<Rightarrow> Inl e
             | Inr None \<Rightarrow> Inl Null_dereference
             | Inr (Some next) \<Rightarrow>
                 if is_terminal next then Inr (Some next)
                 else heuristic_rollout_loop rnd (Suc k) next (remove1 best_move available)))"
  by pat_completeness auto
termination
proof (relation "measure (\<lambda>(rnd, k, curstate, available). length available)")
  show "wf (measure (\<lambda>(rnd, k, curstate, available). length available))"
    by simp
next
  fix rnd :: "nat \<Rightarrow> nat" and k curstate and available :: "int list" and best_move y z
  assume "available \<noteq> []"
    and "find_best_heuristic_move (rnd k) curstate available = Inr best_move"
  then have "best_move \<in> set available"
    by (simp add: find_best_heuristic_move_member)
  then show "((rnd, Suc k, z, remove1 best_move available), rnd, k, curstate, available)
      \<in> measure (\<lambda>(rnd, k, curstate, available). length available)"
    by (simp add: length_remove1) (cases available; simp)
qed

declare heuristic_rollout_loop.simps [simp del]

definition heuristic_rollout :: "(nat \<Rightarrow> nat) \<Rightarrow> TicTacToe_state \<Rightarrow> error + real" where
  "heuristic_rollout rnd s =
     (if is_terminal s then Inr (result_of_winner (winner s))
      else case heuristic_rollout_loop rnd 0 s (available_cells s) of
             Inl e \<Rightarrow> Inl e
           | Inr None \<Rightarrow> Inr 0
           | Inr (Some final) \<Rightarrow> Inr (result_of_winner (winner final)))"

text \<open>A playout: from a state that is not terminal, the player to move takes a cell, and
  so on; \<open>playout s t\<close> when \<open>t\<close> is reached from \<open>s\<close> this way.\<close>

inductive playout :: "TicTacToe_state \<Rightarrow> TicTacToe_state \<Rightarrow> bool" where
  playout_done: "playout s s"
| playout_step:
    "\<not> is_terminal s \<Longrightarrow> next_state s (TicTacToe_move i j (turn s)) = Inr (Some s') \<Longrightarrow>
     playout s' t \<Longrightarrow> playout s t"


subsection \<open>The same operations on heap-allocated states\<close>

text \<open>
  The simulations start from \<^verbatim>\<open>curstate = (TicTacToe_state *) this\<close> and delete the states they
  walk over, so what they do to the receiver depends on which addresses they delete. Here
  the states live in a heap: \<open>objs\<close> maps an address to the object allocated there, and
  \<open>lim\<close> is the next address \<^verbatim>\<open>new\<close> hands out (an address is never handed out twice).
  Every operation takes the heap and the address \<open>this\<close> of its receiver and returns the
  heap it leaves. Dereferencing an address that holds no object is the error
  \<open>Null_dereference\<close>.
\<close>

record heap =
  objs :: "nat \<Rightarrow> TicTacToe_state option"
  lim :: nat

text \<open>\<^verbatim>\<open>new TicTacToe_state(other)\<close>, the copy constructor, and \<^verbatim>\<open>delete p\<close>.\<close>

definition new_TicTacToe_state :: "heap \<Rightarrow> TicTacToe_state \<Rightarrow> nat \<times> heap" where
  "new_TicTacToe_state h other = (lim h, h\<lparr>objs := (objs h)(lim h \<mapsto> other), lim := Suc (lim h)\<rparr>)"

definition delete_state :: "heap \<Rightarrow> nat \<Rightarrow> heap" where
  "delete_state h p = h\<lparr>objs := (objs h)(p := None)\<rparr>"

text \<open>Every allocated address is below \<open>lim\<close>.\<close>

definition heap_ok :: "heap \<Rightarrow> bool" where
  "heap_ok h = (\<forall>a. objs h a \<noteq> None \<longrightarrow> a < lim h)"

text \<open>\<^verbatim>\<open>next_state\<close>: the copy is allocated first and holds the receiver's fields; it is
  modified in place, or left allocated when the move is illegal and null is returned.\<close>

definition next_state_at :: "heap \<Rightarrow> nat \<Rightarrow> TicTacToe_move \<Rightarrow> error + (nat option \<times> heap)" where
  "next_state_at h this m =
     (case objs h this of
        None \<Rightarrow> Inl Null_dereference
      | Some s \<Rightarrow>
          (case new_TicTacToe_state h s of
             (new_state, h1) \<Rightarrow>
               if cell_offset m < 0 \<or> 8 < cell_offset m then Inl Out_of_bounds
               else
                 let i = cell_offset m div 3;
                     j = cell_offset m mod 3
                 in if board s i j = CHR '' '' then
                      let played = s\<lparr>board := (board s)(i := (board s i)(j := move_player m))\<rparr>;
                          checked = played\<lparr>winner := calculate_winner played\<rparr>
                      in Inr (Some new_state,
                              h1\<lparr>objs := (objs h1)(new_state \<mapsto> change_turn checked)\<rparr>)
                    else Inr (None, h1)))"

text \<open>\<^verbatim>\<open>actions_to_try\<close> allocates moves and a queue, no state; it reads the receiver.\<close>

definition actions_to_try_at :: "heap \<Rightarrow> nat \<Rightarrow> error + (TicTacToe_move list \<times> heap)" where
  "actions_to_try_at h this =
     (case objs h this of
        None \<Rightarrow> Inl Null_dereference
      | Some s \<Rightarrow> Inr (actions_to_try s, h))"

text \<open>The loop of \<^verbatim>\<open>rollout\<close> with its pointers: \<^verbatim>\<open>old\<close> is deleted unless \<^verbatim>\<open>first\<close>, and the
  last state is deleted after its score is read.\<close>

function rollout_loop_at ::
  "(nat \<Rightarrow> nat) \<Rightarrow> nat \<Rightarrow> heap \<Rightarrow> nat \<Rightarrow> bool \<Rightarrow> int list \<Rightarrow> error + (real \<times> heap)" where
  "rollout_loop_at rnd k h curstate first available =
     (if available = [] then Inr (0, h)
      else
        case objs h curstate of
          None \<Rightarrow> Inl Null_dereference
        | Some cur \<Rightarrow>
            let r = rnd k mod length available;
                a = available ! r
            in case next_state_at h curstate (TicTacToe_move (a div 3) (a mod 3) (turn cur)) of
                 Inl e \<Rightarrow> Inl e
               | Inr (next, h1) \<Rightarrow>
                   let h2 = (if \<not> first then delete_state h1 curstate else h1)
                   in case next of
                        None \<Rightarrow> Inl Null_dereference
                      | Some p \<Rightarrow>
                          (case objs h2 p of
                             None \<Rightarrow> Inl Null_dereference
                           | Some nxt \<Rightarrow>
                               if is_terminal nxt
                               then Inr (result_of_winner (winner nxt), delete_state h2 p)
                               else rollout_loop_at rnd (Suc k) h2 p False
                                      (take r available @ drop (Suc r) available)))"
  by pat_completeness auto
termination
proof (relation "measure (\<lambda>(rnd, k, h, curstate, first, available). length available)")
  show "wf (measure (\<lambda>(rnd, k, h, curstate, first, available). length available))"
    by simp
next
  fix rnd :: "nat \<Rightarrow> nat" and k h curstate first and available :: "int list" and r h2 p
  assume "available \<noteq> []" and "r = rnd k mod length available"
  then have "r < length available"
    by simp
  then show "((rnd, Suc k, h2, p, False, take r available @ drop (Suc r) available),
               rnd, k, h, curstate, first, available)
      \<in> measure (\<lambda>(rnd, k, h, curstate, first, available). length available)"
    by simp
qed

declare rollout_loop_at.simps [simp del]

definition rollout_at :: "(nat \<Rightarrow> nat) \<Rightarrow> heap \<Rightarrow> nat \<Rightarrow> error + (real \<times> heap)" where
  "rollout_at rnd h this =
     (case objs h this of
        None \<Rightarrow> Inl Null_dereference
      | Some s \<Rightarrow>
          if is_terminal s then Inr (result_of_winner (winner s), h)
          else rollout_loop_at rnd 0 h this True (available_cells s))"

text \<open>The loops of \<^verbatim>\<open>find_best_heuristic_move\<close>: each test state is allocated by
  \<^verbatim>\<open>next_state\<close> and deleted after its winner is read.\<close>

fun first_winning_at ::
  "heap \<Rightarrow> nat \<Rightarrow> char \<Rightarrow> int list \<Rightarrow> error + (int option \<times> heap)" where
  "first_winning_at h state p [] = Inr (None, h)"
| "first_winning_at h state p (pos # rest) =
     (case next_state_at h state (TicTacToe_move (pos div 3) (pos mod 3) p) of
        Inl e \<Rightarrow> Inl e
      | Inr (None, h1) \<Rightarrow> Inl Null_dereference
      | Inr (Some test_state, h1) \<Rightarrow>
          (case objs h1 test_state of
             None \<Rightarrow> Inl Null_dereference
           | Some t \<Rightarrow>
               if winner t = p then Inr (Some pos, delete_state h1 test_state)
               else first_winning_at (delete_state h1 test_state) state p rest))"

definition find_best_heuristic_move_at ::
  "nat \<Rightarrow> heap \<Rightarrow> nat \<Rightarrow> int list \<Rightarrow> error + (int \<times> heap)" where
  "find_best_heuristic_move_at raw h state available =
     (case objs h state of
        None \<Rightarrow> Inl Null_dereference
      | Some s \<Rightarrow>
          (case first_winning_at h state (turn s) available of
             Inl e \<Rightarrow> Inl e
           | Inr (Some pos, h1) \<Rightarrow> Inr (pos, h1)
           | Inr (None, h1) \<Rightarrow>
               (case first_winning_at h1 state
                       (if turn s = CHR ''x'' then CHR ''o'' else CHR ''x'') available of
                  Inl e \<Rightarrow> Inl e
                | Inr (Some pos, h2) \<Rightarrow> Inr (pos, h2)
                | Inr (None, h2) \<Rightarrow>
                    if 4 \<in> set available then Inr (4, h2)
                    else (case find (\<lambda>corner. corner \<in> set available) [0, 2, 6, 8] of
                            Some corner \<Rightarrow> Inr (corner, h2)
                          | None \<Rightarrow>
                              if available = [] then Inl Out_of_bounds
                              else Inr (available ! (raw mod length available), h2)))))"

lemma first_winning_at_member:
  "first_winning_at h state p available = Inr (Some pos, h') \<Longrightarrow> pos \<in> set available"
  by (induction available arbitrary: h)
     (auto split: sum.splits option.splits if_splits prod.splits)

lemma find_best_heuristic_move_at_member:
  assumes "find_best_heuristic_move_at raw h state available = Inr (best, h')"
  shows "best \<in> set available"
proof -
  have c: "find (\<lambda>corner. corner \<in> set available) [0, 2, 6, 8] = Some best \<Longrightarrow> best \<in> set available"
    by (auto split: if_splits)
  from assms show ?thesis
    unfolding find_best_heuristic_move_at_def
    by (auto split: sum.splits option.splits if_splits prod.splits
        dest: first_winning_at_member c)
qed

function heuristic_rollout_loop_at ::
  "(nat \<Rightarrow> nat) \<Rightarrow> nat \<Rightarrow> heap \<Rightarrow> nat \<Rightarrow> bool \<Rightarrow> int list \<Rightarrow> error + (real \<times> heap)" where
  "heuristic_rollout_loop_at rnd k h curstate first available =
     (if available = [] then Inr (0, h)
      else
        case find_best_heuristic_move_at (rnd k) h curstate available of
          Inl e \<Rightarrow> Inl e
        | Inr (best_move, h0) \<Rightarrow>
            (case objs h0 curstate of
               None \<Rightarrow> Inl Null_dereference
             | Some cur \<Rightarrow>
                 (case next_state_at h0 curstate
                         (TicTacToe_move (best_move div 3) (best_move mod 3) (turn cur)) of
                    Inl e \<Rightarrow> Inl e
                  | Inr (next, h1) \<Rightarrow>
                      let h2 = (if \<not> first then delete_state h1 curstate else h1)
                      in case next of
                           None \<Rightarrow> Inl Null_dereference
                         | Some p \<Rightarrow>
                             (case objs h2 p of
                                None \<Rightarrow> Inl Null_dereference
                              | Some nxt \<Rightarrow>
                                  if is_terminal nxt
                                  then Inr (result_of_winner (winner nxt), delete_state h2 p)
                                  else heuristic_rollout_loop_at rnd (Suc k) h2 p False
                                         (remove1 best_move available)))))"
  by pat_completeness auto
termination
proof (relation "measure (\<lambda>(rnd, k, h, curstate, first, available). length available)")
  show "wf (measure (\<lambda>(rnd, k, h, curstate, first, available). length available))"
    by simp
next
  fix rnd :: "nat \<Rightarrow> nat" and k h curstate first and available :: "int list"
    and x best_move h0 h2 p
  assume "available \<noteq> []"
    and "find_best_heuristic_move_at (rnd k) h curstate available = Inr x"
    and "(best_move, h0) = x"
  then have "best_move \<in> set available"
    using find_best_heuristic_move_at_member [of "rnd k" h curstate available best_move h0]
    by simp
  then show "((rnd, Suc k, h2, p, False, remove1 best_move available),
               rnd, k, h, curstate, first, available)
      \<in> measure (\<lambda>(rnd, k, h, curstate, first, available). length available)"
    by (simp add: length_remove1) (cases available; simp)
qed

declare heuristic_rollout_loop_at.simps [simp del]

definition heuristic_rollout_at :: "(nat \<Rightarrow> nat) \<Rightarrow> heap \<Rightarrow> nat \<Rightarrow> error + (real \<times> heap)" where
  "heuristic_rollout_at rnd h this =
     (case objs h this of
        None \<Rightarrow> Inl Null_dereference
      | Some s \<Rightarrow>
          if is_terminal s then Inr (result_of_winner (winner s), h)
          else heuristic_rollout_loop_at rnd 0 h this True (available_cells s))"

text \<open>A heap holding the initial state at address 0.\<close>

definition one_state_heap :: heap where
  "one_state_heap = \<lparr>objs = Map.empty(0 \<mapsto> TicTacToe_state_new), lim = 1\<rparr>"


text \<open>A heap holding that position at address 0.\<close>

definition x_to_win_heap :: heap where
  "x_to_win_heap = \<lparr>objs = Map.empty(0 \<mapsto> x_to_win), lim = 1\<rparr>"


section \<open>Rollout dispatch (mcts/include/mcts.h, \<^verbatim>\<open>RolloutJob::run\<close>)\<close>

datatype RolloutStrategy = RANDOM | HEURISTIC | MIXED | HEAVY

text \<open>Which virtual method of the state a job invoked.\<close>

datatype callee = Called_rollout | Called_heuristic_rollout

text \<open>
  Rounding a real to the nearest double (IEEE 754 binary64, ties to the even significand):
  with \<open>e\<close> the exponent of the binade of \<open>x\<close>, the doubles there are the multiples of
  \<open>2 powr (e - 52)\<close>. This is the rounding of every magnitude in the normal range
  (\<open>2 powr (- 1022)\<close> up to \<open>2 powr 1024\<close>), where the quotient of two 32-bit ints with a
  numerator other than 0 always lies; subnormal numbers and overflow are not modelled.
\<close>

definition round_to_even :: "real \<Rightarrow> int" where
  "round_to_even x =
     (let f = \<lfloor>x\<rfloor> in
      if x - of_int f < 1 / 2 then f
      else if 1 / 2 < x - of_int f then f + 1
      else if even f then f else f + 1)"

definition to_double :: "real \<Rightarrow> real" where
  "to_double x =
     (if x = 0 then 0
      else let e = \<lfloor>log 2 \<bar>x\<bar>\<rfloor>
           in of_int (round_to_even (x * 2 powr of_int (52 - e))) * 2 powr of_int (e - 52))"

text \<open>
  \<^verbatim>\<open>run\<close> writes one score. The state's two virtual methods are the parameters
  \<open>state_rollout\<close> and \<open>state_heuristic_rollout\<close>; \<open>heuristic_ratio\<close> is the value of
  \<^verbatim>\<open>MCTS_node::get_heuristic_ratio()\<close>.
  The C library's \<^verbatim>\<open>rand()\<close> has one hidden state per process: \<open>rand\<close> maps that state
  to the drawn integer and the next state, and \<open>RAND_MAX\<close> is the library's constant.
  In \<^verbatim>\<open>static_cast<double>(rand()) / RAND_MAX\<close> both operands are ints, which a double holds
  exactly; their quotient is rounded to a double (\<open>to_double\<close>) before it is compared with
  the ratio.
  The result is the method invoked, the score written, and the state of \<^verbatim>\<open>rand()\<close> afterwards.
\<close>

definition run ::
  "('g \<Rightarrow> int \<times> 'g) \<Rightarrow> int \<Rightarrow> real \<Rightarrow> ('st \<Rightarrow> real) \<Rightarrow> ('st \<Rightarrow> real) \<Rightarrow>
   RolloutStrategy \<Rightarrow> 'st \<Rightarrow> 'g \<Rightarrow> (callee \<times> real) \<times> 'g" where
  "run rand RAND_MAX heuristic_ratio state_rollout state_heuristic_rollout strategy state g =
     (case strategy of
        HEURISTIC \<Rightarrow> ((Called_heuristic_rollout, state_heuristic_rollout state), g)
      | MIXED \<Rightarrow>
          (case rand g of (r, g') \<Rightarrow>
             if to_double (real_of_int r / real_of_int RAND_MAX) < heuristic_ratio
             then ((Called_heuristic_rollout, state_heuristic_rollout state), g')
             else ((Called_rollout, state_rollout state), g'))
      | HEAVY \<Rightarrow> ((Called_heuristic_rollout, state_heuristic_rollout state), g)
      | RANDOM \<Rightarrow> ((Called_rollout, state_rollout state), g))"

text \<open>Two jobs executed one after the other, by whichever workers: the second starts from
  the \<^verbatim>\<open>rand()\<close> state the first left.\<close>

definition run_two ::
  "('g \<Rightarrow> int \<times> 'g) \<Rightarrow> int \<Rightarrow> real \<Rightarrow> ('st \<Rightarrow> real) \<Rightarrow> ('st \<Rightarrow> real) \<Rightarrow>
   RolloutStrategy \<Rightarrow> RolloutStrategy \<Rightarrow> 'st \<Rightarrow> 'g \<Rightarrow> (callee \<times> real) \<times> (callee \<times> real)" where
  "run_two rand RAND_MAX heuristic_ratio state_rollout state_heuristic_rollout first second state g =
     (case run rand RAND_MAX heuristic_ratio state_rollout state_heuristic_rollout first state g of
        (a, g') \<Rightarrow>
          (a, fst (run rand RAND_MAX heuristic_ratio state_rollout state_heuristic_rollout second state g')))"

text \<open>A generator for the examples: the portable \<^verbatim>\<open>rand()\<close> of the C standard
  (\<open>next = next * 1103515245 + 12345; return next / 65536 % 32768\<close>, on 32 bits),
  with \<open>RAND_MAX = 32767\<close>.\<close>

definition c_rand :: "nat \<Rightarrow> int \<times> nat" where
  "c_rand g =
     (let next = (g * 1103515245 + 12345) mod 2 ^ 32
      in (int (next div 65536 mod 32768), next))"

text \<open>A generator that keeps returning \<open>RAND_MAX\<close>, a value \<^verbatim>\<open>rand()\<close> may return.\<close>

definition rand_top :: "int \<Rightarrow> unit \<Rightarrow> int \<times> unit" where
  "rand_top RAND_MAX g = (RAND_MAX, g)"


section \<open>The Python state wrapper (pybind/py_wrappers.cpp)\<close>

text \<open>A call into Python either returns or throws an exception derived from
  \<^verbatim>\<open>std::exception\<close> (pybind11 raises no other kind), which the handler catches.\<close>

datatype 'a outcome = Returns 'a | Throws

record 'obj SerializedPythonState =
  python_state :: 'obj
  cached_python_moves :: "'obj list"

definition SerializedPythonState_new :: "'obj \<Rightarrow> 'obj SerializedPythonState" where
  "SerializedPythonState_new obj = \<lparr>python_state = obj, cached_python_moves = []\<rparr>"

text \<open>The move argument: a \<^verbatim>\<open>PythonMoveWrapper\<close> holding its Python move (the
  \<^verbatim>\<open>dynamic_cast\<close> succeeds), or any other move (converted by \<^verbatim>\<open>py::cast\<close>).\<close>

datatype ('obj, 'm) MCTS_move_arg = PythonMoveWrapper 'obj | Other_move 'm

text \<open>
  \<^verbatim>\<open>SerializedPythonState::next_state\<close>. \<open>py_next_state\<close> is the Python object's
  \<^verbatim>\<open>next_state\<close> attribute, \<open>py_cast\<close> the conversion of a non-wrapper move.
  \<open>None\<close> would be the null pointer.
\<close>

definition SerializedPythonState_next_state ::
  "('obj \<Rightarrow> 'obj \<Rightarrow> 'obj outcome) \<Rightarrow> ('m \<Rightarrow> 'obj outcome) \<Rightarrow>
   'obj SerializedPythonState \<Rightarrow> ('obj, 'm) MCTS_move_arg \<Rightarrow> 'obj SerializedPythonState option" where
  "SerializedPythonState_next_state py_next_state py_cast this move =
     (case (case move of PythonMoveWrapper py_move \<Rightarrow> Returns py_move
                       | Other_move m \<Rightarrow> py_cast m) of
        Throws \<Rightarrow> Some (SerializedPythonState_new (python_state this))
      | Returns py_move \<Rightarrow>
          (case py_next_state (python_state this) py_move of
             Throws \<Rightarrow> Some (SerializedPythonState_new (python_state this))
           | Returns new_py_state \<Rightarrow> Some (SerializedPythonState_new new_py_state)))"


section \<open>Queue and vector conversion (pybind/py_wrappers.cpp)\<close>

text \<open>A \<^verbatim>\<open>std::queue\<close> is the list of its elements, front first; the queue pointer is an
  option. The elements are the move pointers themselves.\<close>

text \<open>The loop of \<^verbatim>\<open>queue_to_vector\<close>: while the queue is not empty, append its front to
  the result and pop it.\<close>

fun drain :: "'a list \<Rightarrow> 'a list \<Rightarrow> 'a list" where
  "drain [] result = result"
| "drain (front # rest) result = drain rest (result @ [front])"

definition queue_to_vector :: "'a list option \<Rightarrow> 'a list" where
  "queue_to_vector q = (case q of None \<Rightarrow> [] | Some qu \<Rightarrow> drain qu [])"

definition vector_to_queue :: "'a list \<Rightarrow> 'a list option" where
  "vector_to_queue vec = Some (foldl (\<lambda>q move. q @ [move]) [] vec)"


section \<open>UCT child selection (\<^verbatim>\<open>MCTS_node::select_best_child\<close>)\<close>

text \<open>
  Only the declaration of \<^verbatim>\<open>select_best_child\<close> (mcts/include/mcts.h) is among the sources; its
  body is not. A node carries what the selection rule reads: its visit count, its score,
  whether the self side moves at its state, and its children in order.
\<close>

datatype MCTS_node =
  MCTS_node (visits: nat) (score: real) (self_side_turn: bool) (children: "MCTS_node list")

text \<open>Modelled from the spec: \<open>winrate(child)\<close> of section 4.4, the body of
  \<^verbatim>\<open>calculate_winrate\<close> being absent: \<open>child.score / child.visits\<close> if the self side moves at
  the parent's state, else \<open>1 - child.score / child.visits\<close>.\<close>

definition winrate :: "bool \<Rightarrow> MCTS_node \<Rightarrow> real" where
  "winrate self_turn child =
     (if self_turn then score child / real (visits child)
      else 1 - score child / real (visits child))"

text \<open>Modelled from the spec: the UCT score
  \<open>U(child) = winrate(child) + c * sqrt (ln (visits(self)) / visits(child))\<close> of section 4.4,
  the body of \<^verbatim>\<open>select_best_child\<close> being absent.\<close>

definition UCT :: "real \<Rightarrow> MCTS_node \<Rightarrow> MCTS_node \<Rightarrow> real" where
  "UCT c self child =
     winrate (self_side_turn self) child
       + c * sqrt (ln (real (visits self)) / real (visits child))"

text \<open>The lowest index whose element satisfies a test.\<close>

fun first_index :: "('a \<Rightarrow> bool) \<Rightarrow> 'a list \<Rightarrow> nat option" where
  "first_index P [] = None"
| "first_index P (x # xs) = (if P x then Some 0 else map_option Suc (first_index P xs))"

text \<open>Modelled from the spec: \<^verbatim>\<open>select_best_child(c)\<close> of section 4.4, whose body is absent:
  if any child has \<open>visits = 0\<close>, that child is selected immediately (ties by index);
  otherwise the child maximizing the UCT score, ties broken by lowest index in
  \<open>children\<close>. The result is the index of the selected child; \<open>None\<close> when there is no
  child (the precondition fails).\<close>

definition select_best_child :: "real \<Rightarrow> MCTS_node \<Rightarrow> nat option" where
  "select_best_child c self =
     (case first_index (\<lambda>child. visits child = 0) (children self) of
        Some i \<Rightarrow> Some i
      | None \<Rightarrow>
          first_index
            (\<lambda>child. list_all (\<lambda>other. UCT c self other \<le> UCT c self child) (children self))
            (children self))"


section \<open>The declared interface of the state classes\<close>

text \<open>
  The member functions each class declares, in the order of the header, with how each is
  declared. The state contract is \<^verbatim>\<open>MCTS_state\<close> (mcts/include/state.h); \<^verbatim>\<open>TicTacToe_state\<close>
  is examples/TicTacToe/TicTacToe.h; the sources hold two versions of pybind/py_wrappers.h,
  each with a trampoline class \<^verbatim>\<open>PyMCTS_state\<close>.
\<close>

datatype specifier = Pure_virtual | Virtual | Override | Plain

definition MCTS_state_members :: "(string \<times> specifier) list" where
  "MCTS_state_members =
     [(''actions_to_try'', Pure_virtual), (''next_state'', Pure_virtual),
      (''rollout'', Pure_virtual), (''is_terminal'', Pure_virtual), (''print'', Virtual),
      (''is_self_side_turn'', Pure_virtual), (''clone'', Pure_virtual),
      (''heuristic_rollout'', Virtual), (''evaluate_move'', Virtual),
      (''evaluate_position'', Virtual)]"

definition TicTacToe_state_members :: "(string \<times> specifier) list" where
  "TicTacToe_state_members =
     [(''player_won'', Plain), (''calculate_winner'', Plain), (''change_turn'', Plain),
      (''find_best_heuristic_move'', Plain), (''count_winning_lines'', Plain),
      (''can_win_line'', Plain), (''get_turn'', Plain), (''get_winner'', Plain),
      (''is_terminal'', Override), (''next_state'', Override), (''actions_to_try'', Override),
      (''rollout'', Override), (''print'', Override), (''player1_turn'', Override),
      (''heuristic_rollout'', Override), (''evaluate_move'', Override),
      (''evaluate_position'', Override)]"

text \<open>\<^verbatim>\<open>PyMCTS_state\<close> as pybind/py_wrappers.h declares it.\<close>

definition PyMCTS_state_members :: "(string \<times> specifier) list" where
  "PyMCTS_state_members =
     [(''actions_to_try'', Override), (''next_state'', Override), (''rollout'', Override),
      (''is_terminal'', Override), (''print'', Override), (''is_self_side_turn'', Override),
      (''clone'', Override)]"

text \<open>\<^verbatim>\<open>PyMCTS_state\<close> as the other version of py_wrappers.h declares it.\<close>

definition PyMCTS_state_members_other :: "(string \<times> specifier) list" where
  "PyMCTS_state_members_other =
     [(''actions_to_try'', Override), (''next_state'', Override), (''rollout'', Override),
      (''is_terminal'', Override), (''print'', Override), (''player1_turn'', Override)]"

text \<open>The turn-identification operations among a class's members.\<close>

definition turn_operations :: "(string \<times> specifier) list \<Rightarrow> string list" where
  "turn_operations members =
     filter (\<lambda>n. n = ''is_self_side_turn'' \<or> n = ''player1_turn'') (map fst members)"

text \<open>The pure virtual functions of a base that a derived class leaves without an
  override, and the overrides of a derived class that match no function of the base.\<close>

definition missing_overrides ::
  "(string \<times> specifier) list \<Rightarrow> (string \<times> specifier) list \<Rightarrow> string list" where
  "missing_overrides base derived =
     filter (\<lambda>n. n \<notin> set (map fst derived))
       (map fst (filter (\<lambda>m. snd m = Pure_virtual) base))"

definition dangling_overrides ::
  "(string \<times> specifier) list \<Rightarrow> (string \<times> specifier) list \<Rightarrow> string list" where
  "dangling_overrides base derived =
     filter (\<lambda>n. n \<notin> set (map fst base))
       (map fst (filter (\<lambda>m. snd m = Override) derived))"


section \<open>Properties of the TicTacToe state\<close>

lemma upto_0_8: "[0..8] = [0, 1, 2, 3, 4, 5, 6, 7, 8 :: int]"
  by (simp add: upto_rec1)

lemma player_won_frame [simp]:
  "player_won (s\<lparr>winner := w\<rparr>) p = player_won s p"
  "player_won (s\<lparr>turn := t\<rparr>) p = player_won s p"
  by (simp_all add: player_won_def)

lemma all_taken_frame [simp]:
  "all_taken (s\<lparr>winner := w\<rparr>) = all_taken s"
  "all_taken (s\<lparr>turn := t\<rparr>) = all_taken s"
  by (simp_all add: all_taken_def)

lemma calculate_winner_frame [simp]:
  "calculate_winner (s\<lparr>winner := w\<rparr>) = calculate_winner s"
  "calculate_winner (s\<lparr>turn := t\<rparr>) = calculate_winner s"
  by (simp_all add: calculate_winner_def)

lemma actions_to_try_Nil_iff: "actions_to_try s = [] \<longleftrightarrow> all_taken s"
  by (simp add: actions_to_try_def all_taken_def filter_empty_conv list_all_iff)

lemma calculate_winner_all_taken: "all_taken s \<Longrightarrow> calculate_winner s \<noteq> CHR '' ''"
  by (simp add: calculate_winner_def)

lemma calculate_winner_draw: "calculate_winner s = CHR ''d'' \<Longrightarrow> all_taken s"
  by (simp add: calculate_winner_def split: if_splits)

lemma consistent_new: "consistent TicTacToe_state_new"
  by (simp add: consistent_def TicTacToe_state_new_def Let_def calculate_winner_def
      player_won_def all_taken_def)

lemma in_bounds_offset:
  assumes "in_bounds m"
  shows "0 \<le> cell_offset m" "cell_offset m \<le> 8"
    "cell_offset m div 3 = move_x m" "cell_offset m mod 3 = move_y m"
  using assms by (auto simp: in_bounds_def cell_offset_def)

lemma next_state_in_bounds:
  assumes "in_bounds m"
  shows "next_state s m =
     (if board s (move_x m) (move_y m) = CHR '' '' then
        let played = s\<lparr>board :=
              (board s)(move_x m := (board s (move_x m))(move_y m := move_player m))\<rparr>;
            checked = played\<lparr>winner := calculate_winner played\<rparr>
        in Inr (Some (change_turn checked))
      else Inr None)"
  using in_bounds_offset [OF assms] by (simp add: next_state_def Let_def)

lemma next_state_consistent:
  assumes "next_state s m = Inr (Some s')"
  shows "consistent s'"
  using assms
  by (auto simp: next_state_def Let_def change_turn_def consistent_def split: if_splits)

lemma play_consistent:
  assumes "consistent s" "play s ms = Inr (Some s')"
  shows "consistent s'"
  using assms
proof (induction ms arbitrary: s)
  case Nil
  then show ?case by simp
next
  case (Cons m ms)
  from Cons.prems(2) obtain s1 where s1: "next_state s m = Inr (Some s1)"
    by (auto split: sum.splits option.splits)
  with Cons.prems(2) have "play s1 ms = Inr (Some s')"
    by simp
  with Cons.IH [OF next_state_consistent [OF s1]] show ?case
    by simp
qed

lemma index_of_cell:
  fixes x y :: int
  assumes "0 \<le> x" "x < 3" "0 \<le> y" "y < 3"
  obtains i where "0 \<le> i" "i \<le> 8" "i div 3 = x" "i mod 3 = y"
proof
  show "0 \<le> 3 * x + y" "3 * x + y \<le> 8" "(3 * x + y) div 3 = x" "(3 * x + y) mod 3 = y"
    using assms by auto
qed

lemma cell_of_index:
  fixes i :: int
  assumes "0 \<le> i" "i \<le> 8"
  shows "0 \<le> i div 3" "i div 3 < 3" "0 \<le> i mod 3" "i mod 3 < 3"
  using assms by auto

lemma actions_to_try_member:
  "TicTacToe_move x y p \<in> set (actions_to_try s) \<longleftrightarrow>
     0 \<le> x \<and> x < 3 \<and> 0 \<le> y \<and> y < 3 \<and> board s x y = CHR '' '' \<and> p = turn s"
proof
  assume "TicTacToe_move x y p \<in> set (actions_to_try s)"
  then obtain i where "0 \<le> i" "i \<le> 8" "board s (i div 3) (i mod 3) = CHR '' ''"
    "x = i div 3" "y = i mod 3" "p = turn s"
    by (auto simp: actions_to_try_def)
  then show "0 \<le> x \<and> x < 3 \<and> 0 \<le> y \<and> y < 3 \<and> board s x y = CHR '' '' \<and> p = turn s"
    using cell_of_index [of i] by simp
next
  assume a: "0 \<le> x \<and> x < 3 \<and> 0 \<le> y \<and> y < 3 \<and> board s x y = CHR '' '' \<and> p = turn s"
  then obtain i where i: "0 \<le> i" "i \<le> 8" "i div 3 = x" "i mod 3 = y"
    using index_of_cell [of x y] by blast
  with a have "i \<in> set (filter (\<lambda>i. board s (i div 3) (i mod 3) = CHR '' '') [0..8])"
    by simp
  then have "TicTacToe_move (i div 3) (i mod 3) (turn s) \<in> set (actions_to_try s)"
    unfolding actions_to_try_def set_map by (rule imageI)
  with a i show "TicTacToe_move x y p \<in> set (actions_to_try s)"
    by simp
qed

lemma actions_to_try_order:
  "sorted_wrt (<) (map (\<lambda>m. 3 * move_x m + move_y m) (actions_to_try s))"
proof -
  have "map (\<lambda>m. 3 * move_x m + move_y m) (actions_to_try s)
          = filter (\<lambda>i. board s (i div 3) (i mod 3) = CHR '' '') [0..8]"
    by (simp add: actions_to_try_def comp_def)
  moreover have "sorted_wrt (<) [0..8::int]"
    by (simp add: upto_0_8)
  ultimately show ?thesis
    by (simp add: sorted_wrt_filter)
qed

lemma all_taken_cells:
  "all_taken s \<longleftrightarrow> (\<forall>x y. 0 \<le> x \<and> x < 3 \<and> 0 \<le> y \<and> y < 3 \<longrightarrow> board s x y \<noteq> CHR '' '')"
proof
  assume t: "all_taken s"
  show "\<forall>x y. 0 \<le> x \<and> x < 3 \<and> 0 \<le> y \<and> y < 3 \<longrightarrow> board s x y \<noteq> CHR '' ''"
  proof (intro allI impI)
    fix x y :: int
    assume a: "0 \<le> x \<and> x < 3 \<and> 0 \<le> y \<and> y < 3"
    then obtain i where i: "0 \<le> i" "i \<le> 8" "i div 3 = x" "i mod 3 = y"
      using index_of_cell [of x y] by blast
    from t i(1,2) have "board s (i div 3) (i mod 3) \<noteq> CHR '' ''"
      by (simp add: all_taken_def list_all_iff)
    with i show "board s x y \<noteq> CHR '' ''"
      by simp
  qed
next
  assume "\<forall>x y. 0 \<le> x \<and> x < 3 \<and> 0 \<le> y \<and> y < 3 \<longrightarrow> board s x y \<noteq> CHR '' ''"
  then show "all_taken s"
    using cell_of_index by (simp add: all_taken_def list_all_iff)
qed

lemma player_won_three_in_a_row: "player_won s p = three_in_a_row (board s) p"
  by (auto simp: player_won_def three_in_a_row_def)

lemma all_taken_board_full: "all_taken s = board_full (board s)"
proof -
  have "{0, 1, 2} = {x::int. 0 \<le> x \<and> x < 3}"
    by auto
  then show ?thesis
    by (auto simp: all_taken_cells board_full_def)
qed

lemma calculate_winner_board: "calculate_winner s = winner_of_board (board s)"
  by (simp add: calculate_winner_def winner_of_board_def player_won_three_in_a_row
      all_taken_board_full)

lemma player_won_terminal:
  assumes "winner s = calculate_winner s" "player_won s (CHR ''x'') \<or> player_won s (CHR ''o'')"
  shows "is_terminal s"
  using assms by (auto simp: is_terminal_def calculate_winner_def)

text \<open>
  Claim C1, as the code has it. For a state whose cached winner is the one computed from
  its board, \<^verbatim>\<open>actions_to_try\<close> queues exactly the moves \<open>(x, y, turn)\<close> of the empty cells
  \<open>(x, y)\<close>, each once and in row-major order, whatever the winner. So the queue is empty iff
  no cell is empty; an empty queue implies a terminal state, and a drawn state has an empty
  queue; but a state in which a player has a line while a cell is empty is terminal with a
  non-empty queue.
\<close>

theorem actions_to_try_empty:
  assumes "winner s = calculate_winner s"
  shows "(\<forall>x y p. TicTacToe_move x y p \<in> set (actions_to_try s) \<longleftrightarrow>
            0 \<le> x \<and> x < 3 \<and> 0 \<le> y \<and> y < 3 \<and> board s x y = CHR '' '' \<and> p = turn s)
       \<and> sorted_wrt (<) (map (\<lambda>m. 3 * move_x m + move_y m) (actions_to_try s))
       \<and> (actions_to_try s = [] \<longleftrightarrow> all_taken s)
       \<and> (all_taken s \<longleftrightarrow>
            (\<forall>x y. 0 \<le> x \<and> x < 3 \<and> 0 \<le> y \<and> y < 3 \<longrightarrow> board s x y \<noteq> CHR '' ''))
       \<and> (actions_to_try s = [] \<longrightarrow> is_terminal s)
       \<and> (winner s = CHR ''d'' \<longrightarrow> actions_to_try s = [])
       \<and> (player_won s (CHR ''x'') \<or> player_won s (CHR ''o'') \<longrightarrow> is_terminal s)
       \<and> ((player_won s (CHR ''x'') \<or> player_won s (CHR ''o'')) \<and> \<not> all_taken s \<longrightarrow>
            is_terminal s \<and> actions_to_try s \<noteq> [])"
proof (intro conjI)
  show "\<forall>x y p. TicTacToe_move x y p \<in> set (actions_to_try s) \<longleftrightarrow>
            0 \<le> x \<and> x < 3 \<and> 0 \<le> y \<and> y < 3 \<and> board s x y = CHR '' '' \<and> p = turn s"
    by (intro allI) (rule actions_to_try_member)
  show "sorted_wrt (<) (map (\<lambda>m. 3 * move_x m + move_y m) (actions_to_try s))"
    by (rule actions_to_try_order)
  show "actions_to_try s = [] \<longleftrightarrow> all_taken s"
    by (rule actions_to_try_Nil_iff)
  show "all_taken s \<longleftrightarrow>
      (\<forall>x y. 0 \<le> x \<and> x < 3 \<and> 0 \<le> y \<and> y < 3 \<longrightarrow> board s x y \<noteq> CHR '' '')"
    by (rule all_taken_cells)
  show "actions_to_try s = [] \<longrightarrow> is_terminal s"
    using assms calculate_winner_all_taken [of s]
    by (auto simp: actions_to_try_Nil_iff is_terminal_def)
  show "winner s = CHR ''d'' \<longrightarrow> actions_to_try s = []"
    using assms calculate_winner_draw [of s] by (auto simp: actions_to_try_Nil_iff)
  show "player_won s (CHR ''x'') \<or> player_won s (CHR ''o'') \<longrightarrow> is_terminal s"
    using player_won_terminal [OF assms] by blast
  show "(player_won s (CHR ''x'') \<or> player_won s (CHR ''o'')) \<and> \<not> all_taken s \<longrightarrow>
      is_terminal s \<and> actions_to_try s \<noteq> []"
    using player_won_terminal [OF assms] by (auto simp: actions_to_try_Nil_iff)
qed

theorem actions_to_try_empty_witness:
  "winner won_state = calculate_winner won_state
   \<and> player_won won_state (CHR ''x'') \<and> \<not> all_taken won_state
   \<and> is_terminal won_state \<and> actions_to_try won_state \<noteq> []
   \<and> TicTacToe_move 1 2 (CHR ''o'') \<in> set (actions_to_try won_state)
   \<and> TicTacToe_move 0 0 (CHR ''o'') \<notin> set (actions_to_try won_state)
   \<and> TicTacToe_move 1 2 (CHR ''x'') \<notin> set (actions_to_try won_state)
   \<and> winner drawn_state = calculate_winner drawn_state \<and> winner drawn_state = CHR ''d''
   \<and> actions_to_try drawn_state = [] \<and> is_terminal drawn_state"
proof -
  have w: "winner won_state = calculate_winner won_state"
    and p: "player_won won_state (CHR ''x'')" and n: "\<not> all_taken won_state"
    by code_simp+
  have d: "winner drawn_state = calculate_winner drawn_state"
    and dd: "winner drawn_state = CHR ''d''"
    by code_simp+
  have b: "board won_state 1 2 = CHR '' ''" "board won_state 0 0 = CHR ''x''"
    "turn won_state = CHR ''o''"
    by (simp_all add: won_state_def)
  from actions_to_try_empty [OF w] actions_to_try_empty [OF d] w p n d dd b show ?thesis
    by simp
qed

lemma won_state_reached: "play TicTacToe_state_new won_with_gaps = Inr (Some won_state)"
  by (simp add: won_with_gaps_def TicTacToe_state_new_def next_state_def cell_offset_def
      change_turn_def won_state_def Let_def calculate_winner_def player_won_def all_taken_def
      upto_0_8 fun_eq_iff)

text \<open>
  Claim C1 as stated fails: after \<open>x(0,0) o(1,0) x(0,1) o(1,1) x(0,2)\<close> the board is
  \<^verbatim>\<open>x x x / o o _ / _ _ _\<close> (\<open>won_state_reached\<close>); the state is terminal, \<open>x\<close> having won,
  and \<^verbatim>\<open>actions_to_try\<close> still returns the four empty cells.
\<close>

theorem actions_to_try_terminal_counterexample:
  "\<not> (actions_to_try won_state = [] \<longleftrightarrow> is_terminal won_state)"
  by code_simp

text \<open>Facts about the heap that the next statement uses.\<close>

lemma heap_ok_fresh: "heap_ok h \<Longrightarrow> lim h \<le> l \<Longrightarrow> objs h l = None"
  by (fastforce simp: heap_ok_def)

lemma heap_ok_live: "heap_ok h \<Longrightarrow> objs h c = Some s \<Longrightarrow> c < lim h"
  by (fastforce simp: heap_ok_def)

lemma heap_ok_lim: "heap_ok h \<Longrightarrow> lim h \<le> l \<Longrightarrow> heap_ok (h\<lparr>lim := l\<rparr>)"
  by (fastforce simp: heap_ok_def)

lemma heap_ok_delete: "heap_ok h \<Longrightarrow> heap_ok (delete_state h p)"
  by (simp add: heap_ok_def delete_state_def)

lemma next_state_at_refines:
  assumes "objs h c = Some s"
  shows "next_state_at h c m =
     (case next_state s m of
        Inl e \<Rightarrow> Inl e
      | Inr None \<Rightarrow> Inr (None, h\<lparr>objs := (objs h)(lim h \<mapsto> s), lim := Suc (lim h)\<rparr>)
      | Inr (Some s') \<Rightarrow> Inr (Some (lim h), h\<lparr>objs := (objs h)(lim h \<mapsto> s'), lim := Suc (lim h)\<rparr>))"
  using assms
  by (simp add: next_state_at_def next_state_def new_TicTacToe_state_def Let_def)

text \<open>
  Claim C3, for a move that addresses a board cell. \<^verbatim>\<open>next_state\<close> returns null exactly when
  the cell is occupied. Otherwise it returns a state in which the cell holds the move's
  player and the rest of the board is the receiver's; its winner is the one computed from
  the new board (a line of \<open>x\<close>, else a line of \<open>o\<close>, else a draw on a full board, else none);
  the turn is the other player's. On the heap the result is a newly allocated object, at an
  address that held none before and is not the receiver's, and the receiver is as it was.
\<close>

theorem next_state_result:
  assumes "in_bounds m" "heap_ok h" "objs h this = Some s"
  shows "(next_state s m = Inr None \<longleftrightarrow> board s (move_x m) (move_y m) \<noteq> CHR '' '')
       \<and> (board s (move_x m) (move_y m) \<noteq> CHR '' '' \<longrightarrow>
            (\<exists>h'. next_state_at h this m = Inr (None, h') \<and> objs h' this = Some s))
       \<and> (board s (move_x m) (move_y m) = CHR '' '' \<longrightarrow>
            (\<exists>s'. next_state s m = Inr (Some s')
               \<and> board s' = (board s)(move_x m := (board s (move_x m))(move_y m := move_player m))
               \<and> board s' (move_x m) (move_y m) = move_player m
               \<and> winner s' = calculate_winner s'
               \<and> winner s' = winner_of_board (board s')
               \<and> turn s' = (if turn s = CHR ''x'' then CHR ''o'' else CHR ''x'')
               \<and> turn s' \<noteq> turn s
               \<and> (\<exists>p h'. next_state_at h this m = Inr (Some p, h')
                     \<and> objs h p = None \<and> p \<noteq> this
                     \<and> objs h' p = Some s' \<and> objs h' this = Some s)))"
proof (intro conjI impI)
  show "next_state s m = Inr None \<longleftrightarrow> board s (move_x m) (move_y m) \<noteq> CHR '' ''"
    by (simp add: next_state_in_bounds [OF assms(1)] Let_def)
next
  assume occ: "board s (move_x m) (move_y m) \<noteq> CHR '' ''"
  then have "next_state s m = Inr None"
    by (simp add: next_state_in_bounds [OF assms(1)])
  with next_state_at_refines [OF assms(3), of m] heap_ok_live [OF assms(2,3)] assms(3)
  show "\<exists>h'. next_state_at h this m = Inr (None, h') \<and> objs h' this = Some s"
    by simp
next
  assume free: "board s (move_x m) (move_y m) = CHR '' ''"
  define s' where "s' = change_turn
      ((s\<lparr>board := (board s)(move_x m := (board s (move_x m))(move_y m := move_player m))\<rparr>)
        \<lparr>winner := calculate_winner
          (s\<lparr>board := (board s)(move_x m := (board s (move_x m))(move_y m := move_player m))\<rparr>)\<rparr>)"
  have ns: "next_state s m = Inr (Some s')"
    using free by (simp add: next_state_in_bounds [OF assms(1)] Let_def s'_def)
  have b: "board s' = (board s)(move_x m := (board s (move_x m))(move_y m := move_player m))"
    and w: "winner s' = calculate_winner s'"
    and t: "turn s' = (if turn s = CHR ''x'' then CHR ''o'' else CHR ''x'')"
    by (simp_all add: s'_def change_turn_def)
  have at: "next_state_at h this m =
      Inr (Some (lim h), h\<lparr>objs := (objs h)(lim h \<mapsto> s'), lim := Suc (lim h)\<rparr>)"
    using next_state_at_refines [OF assms(3), of m] ns by simp
  have fresh: "objs h (lim h) = None" and live: "this < lim h"
    using heap_ok_fresh [OF assms(2) order_refl] heap_ok_live [OF assms(2,3)] by simp_all
  have heap: "\<exists>p h'. next_state_at h this m = Inr (Some p, h')
                     \<and> objs h p = None \<and> p \<noteq> this
                     \<and> objs h' p = Some s' \<and> objs h' this = Some s"
    using at fresh live assms(3) by (intro exI [of _ "lim h"]) auto
  show "\<exists>s'. next_state s m = Inr (Some s')
               \<and> board s' = (board s)(move_x m := (board s (move_x m))(move_y m := move_player m))
               \<and> board s' (move_x m) (move_y m) = move_player m
               \<and> winner s' = calculate_winner s'
               \<and> winner s' = winner_of_board (board s')
               \<and> turn s' = (if turn s = CHR ''x'' then CHR ''o'' else CHR ''x'')
               \<and> turn s' \<noteq> turn s
               \<and> (\<exists>p h'. next_state_at h this m = Inr (Some p, h')
                     \<and> objs h p = None \<and> p \<noteq> this
                     \<and> objs h' p = Some s' \<and> objs h' this = Some s)"
    using ns b w t heap calculate_winner_board [of s']
    by (intro exI [of _ s']) simp
qed

lemma x_to_win_next: "next_state x_to_win (TicTacToe_move 0 2 (CHR ''x'')) = Inr (Some won_state)"
  by (simp add: x_to_win_def next_state_def cell_offset_def change_turn_def won_state_def Let_def
      calculate_winner_def player_won_def all_taken_def upto_0_8 fun_eq_iff)

theorem next_state_result_witness:
  "in_bounds (TicTacToe_move 0 2 (CHR ''x'')) \<and> in_bounds (TicTacToe_move 0 0 (CHR ''x''))
   \<and> heap_ok x_to_win_heap \<and> objs x_to_win_heap 0 = Some x_to_win
   \<and> winner x_to_win = CHR '' ''
   \<and> next_state x_to_win (TicTacToe_move 0 0 (CHR ''x'')) = Inr None
   \<and> next_state x_to_win (TicTacToe_move 0 2 (CHR ''x'')) = Inr (Some won_state)
   \<and> winner won_state = CHR ''x'' \<and> turn won_state = CHR ''o''
   \<and> winner won_state = winner_of_board (board won_state)
   \<and> (\<exists>p h'. next_state_at x_to_win_heap 0 (TicTacToe_move 0 2 (CHR ''x'')) = Inr (Some p, h')
         \<and> p \<noteq> 0 \<and> objs h' p = Some won_state \<and> objs h' 0 = Some x_to_win)"
proof -
  have b1: "in_bounds (TicTacToe_move 0 2 (CHR ''x''))"
    and b2: "in_bounds (TicTacToe_move 0 0 (CHR ''x''))"
    by (simp_all add: in_bounds_def)
  have ok: "heap_ok x_to_win_heap" and s: "objs x_to_win_heap 0 = Some x_to_win"
    by (simp_all add: heap_ok_def x_to_win_heap_def)
  have c: "board x_to_win 0 2 = CHR '' ''" "board x_to_win 0 0 = CHR ''x''"
    "winner x_to_win = CHR '' ''" "winner won_state = CHR ''x''" "turn won_state = CHR ''o''"
    by (simp_all add: x_to_win_def won_state_def)
  from next_state_result [OF b1 ok s] next_state_result [OF b2 ok s] x_to_win_next b1 b2 ok s c
  show ?thesis
    by auto
qed


lemma played_1_2:
  "next_state TicTacToe_state_new (TicTacToe_move 1 2 (CHR ''x'')) = Inr (Some x_at_1_2)"
  by (simp add: next_state_def cell_offset_def TicTacToe_state_new_def x_at_1_2_def Let_def
      change_turn_def calculate_winner_def player_won_def all_taken_def upto_0_8 fun_eq_iff)

text \<open>
  Claim C3 as stated fails for a move that addresses no cell. \<open>(0, 5)\<close> is not a cell of
  the board; the unchecked \<^verbatim>\<open>board[0][5]\<close> is \<^verbatim>\<open>board[1][2]\<close>. On the empty board the move
  \<open>(0, 5, x)\<close> returns the state the move \<open>(1, 2, x)\<close> returns, with cell \<open>(1, 2)\<close> played;
  and once \<open>(1, 2)\<close> is taken, the move \<open>(0, 5, o)\<close> returns null.
\<close>

theorem next_state_out_of_range_counterexample:
  "\<not> in_bounds (TicTacToe_move 0 5 (CHR ''x''))
   \<and> next_state TicTacToe_state_new (TicTacToe_move 0 5 (CHR ''x'')) = Inr (Some x_at_1_2)
   \<and> next_state TicTacToe_state_new (TicTacToe_move 1 2 (CHR ''x'')) = Inr (Some x_at_1_2)
   \<and> board x_at_1_2 1 2 = CHR ''x''
   \<and> next_state x_at_1_2 (TicTacToe_move 0 5 (CHR ''o'')) = Inr None"
proof -
  have "next_state TicTacToe_state_new (TicTacToe_move 0 5 (CHR ''x''))
          = next_state TicTacToe_state_new (TicTacToe_move 1 2 (CHR ''x''))"
    by (simp add: next_state_def cell_offset_def)
  moreover have "next_state x_at_1_2 (TicTacToe_move 0 5 (CHR ''o'')) = Inr None"
    by (simp add: next_state_def cell_offset_def x_at_1_2_def)
  ultimately show ?thesis
    by (simp add: played_1_2 in_bounds_def) (simp add: x_at_1_2_def)
qed


lemma set_available_cells:
  "set (available_cells s) = {i. 0 \<le> i \<and> i \<le> 8 \<and> board s (i div 3) (i mod 3) = CHR '' ''}"
  by (auto simp: available_cells_def)

lemma distinct_available_cells: "distinct (available_cells s)"
  by (simp add: available_cells_def)

lemma cell_in_bounds:
  assumes "0 \<le> a" "a \<le> 8"
  shows "in_bounds (TicTacToe_move (a div 3) (a mod 3) p)"
  using assms by (simp add: in_bounds_def) presburger

lemma cell_index_unique: "(i::int) div 3 = a div 3 \<Longrightarrow> i mod 3 = a mod 3 \<Longrightarrow> i = a"
  by (metis div_mult_mod_eq)

lemma not_terminal_has_cell:
  assumes "consistent s" "\<not> is_terminal s"
  shows "available_cells s \<noteq> []"
proof -
  from assms have "calculate_winner s = CHR '' ''"
    by (simp add: consistent_def is_terminal_def)
  then have "\<not> all_taken s"
    using calculate_winner_all_taken by blast
  then show ?thesis
    by (simp add: available_cells_def all_taken_def filter_empty_conv list_all_iff)
qed

lemma next_state_empty_cell:
  assumes "a \<in> set (available_cells s)"
  shows "\<exists>s'. next_state s (TicTacToe_move (a div 3) (a mod 3) p) = Inr (Some s')
           \<and> board s' = (board s)(a div 3 := (board s (a div 3))(a mod 3 := p))
           \<and> winner s' = calculate_winner s'
           \<and> turn s' = (if turn s = CHR ''x'' then CHR ''o'' else CHR ''x'')"
proof -
  from assms have a: "0 \<le> a" "a \<le> 8" "board s (a div 3) (a mod 3) = CHR '' ''"
    by (simp_all add: set_available_cells)
  then show ?thesis
    by (simp add: next_state_in_bounds [OF cell_in_bounds [OF a(1,2)]] Let_def change_turn_def)
qed

lemma available_after_move:
  assumes "p \<noteq> CHR '' ''" "a \<in> set (available_cells s)"
    and "board s' = (board s)(a div 3 := (board s (a div 3))(a mod 3 := p))"
  shows "set (available_cells s') = set (available_cells s) - {a}"
  using assms by (auto simp: set_available_cells dest: cell_index_unique)

lemma erase_at:
  assumes "distinct xs" "r < length xs"
  shows "set (take r xs @ drop (Suc r) xs) = set xs - {xs ! r}"
    and "distinct (take r xs @ drop (Suc r) xs)"
    and "length (take r xs @ drop (Suc r) xs) < length xs"
proof -
  have xs: "xs = take r xs @ xs ! r # drop (Suc r) xs"
    using assms(2) by (rule id_take_nth_drop)
  with assms(1) have d: "distinct (take r xs @ xs ! r # drop (Suc r) xs)"
    by simp
  then show "distinct (take r xs @ drop (Suc r) xs)"
    by auto
  from d have "xs ! r \<notin> set (take r xs @ drop (Suc r) xs)"
    by auto
  moreover have "set xs = insert (xs ! r) (set (take r xs @ drop (Suc r) xs))"
    by (subst xs) auto
  ultimately show "set (take r xs @ drop (Suc r) xs) = set xs - {xs ! r}"
    by auto
  show "length (take r xs @ drop (Suc r) xs) < length xs"
    using assms(2) by simp
qed

lemma consistent_turn: "consistent s \<Longrightarrow> turn s \<noteq> CHR '' ''"
  by (auto simp: consistent_def)

lemma rollout_loop_completes:
  assumes "consistent cur" "\<not> is_terminal cur" "set av = set (available_cells cur)" "distinct av"
  shows "\<exists>t. rollout_loop rnd k cur av = Inr (Some t) \<and> playout cur t \<and> is_terminal t"
  using assms
proof (induction av arbitrary: k cur rule: length_induct)
  case (1 av)
  from "1.prems" have ne: "av \<noteq> []"
    using not_terminal_has_cell by fastforce
  define r where "r = rnd k mod length av"
  define a where "a = av ! r"
  from ne have r: "r < length av"
    by (simp add: r_def)
  then have a: "a \<in> set (available_cells cur)"
    using "1.prems"(3) by (auto simp: a_def)
  from next_state_empty_cell [OF a, of "turn cur"] obtain nxt where
    nxt: "next_state cur (TicTacToe_move (a div 3) (a mod 3) (turn cur)) = Inr (Some nxt)"
    and b: "board nxt = (board cur)(a div 3 := (board cur (a div 3))(a mod 3 := turn cur))"
    and w: "winner nxt = calculate_winner nxt"
    and t: "turn nxt = (if turn cur = CHR ''x'' then CHR ''o'' else CHR ''x'')"
    by blast
  have cn: "consistent nxt"
    using w t by (simp add: consistent_def)
  let ?av' = "take r av @ drop (Suc r) av"
  have unfold: "rollout_loop rnd k cur av =
      (if is_terminal nxt then Inr (Some nxt) else rollout_loop rnd (Suc k) nxt ?av')"
    by (subst rollout_loop.simps) (simp add: ne Let_def r_def [symmetric] a_def [symmetric] nxt)
  show ?case
  proof (cases "is_terminal nxt")
    case True
    with unfold playout_step [OF "1.prems"(2) nxt playout_done] show ?thesis
      by auto
  next
    case False
    have s': "set ?av' = set (available_cells nxt)"
      using erase_at(1) [OF "1.prems"(4) r] available_after_move [OF consistent_turn [OF "1.prems"(1)] a b]
        "1.prems"(3) by (simp add: a_def)
    from "1.IH" erase_at(3) [OF "1.prems"(4) r] cn False s' erase_at(2) [OF "1.prems"(4) r]
    obtain t where "rollout_loop rnd (Suc k) nxt ?av' = Inr (Some t)" "playout nxt t" "is_terminal t"
      by blast
    with unfold False playout_step [OF "1.prems"(2) nxt] show ?thesis
      by auto
  qed
qed

lemma first_winning_returns:
  assumes "set av \<subseteq> set (available_cells s)"
  shows "\<exists>r. first_winning s p av = Inr r"
  using assms
proof (induction av)
  case Nil
  then show ?case by simp
next
  case (Cons pos rest)
  then have "pos \<in> set (available_cells s)"
    by simp
  from next_state_empty_cell [OF this, of p] obtain s' where
    "next_state s (TicTacToe_move (pos div 3) (pos mod 3) p) = Inr (Some s')"
    by blast
  with Cons show ?case
    by simp
qed

lemma find_best_heuristic_move_returns:
  assumes "av \<noteq> []" "set av \<subseteq> set (available_cells s)"
  shows "\<exists>best. find_best_heuristic_move raw s av = Inr best \<and> best \<in> set av"
proof -
  define opponent where "opponent = (if turn s = CHR ''x'' then CHR ''o'' else CHR ''x'')"
  from first_winning_returns [OF assms(2)] obtain r1 r2 where
    r: "first_winning s (turn s) av = Inr r1" "first_winning s opponent av = Inr r2"
    by blast
  have last: "\<exists>best. (case find P cs of
                 Some corner \<Rightarrow> Inr corner
               | None \<Rightarrow> if av = [] then Inl Out_of_bounds else Inr x) = (Inr best :: error + int)"
    for P cs x
    using assms(1) by (simp split: option.splits)
  have "\<exists>best. find_best_heuristic_move raw s av = Inr best"
    unfolding find_best_heuristic_move_def opponent_def [symmetric]
    by (cases r1; cases r2) (simp_all add: r last del: find.simps)
  then show ?thesis
    using find_best_heuristic_move_member by blast
qed

lemma heuristic_rollout_loop_completes:
  assumes "consistent cur" "\<not> is_terminal cur" "set av = set (available_cells cur)" "distinct av"
  shows "\<exists>t. heuristic_rollout_loop rnd k cur av = Inr (Some t) \<and> playout cur t \<and> is_terminal t"
  using assms
proof (induction av arbitrary: k cur rule: length_induct)
  case (1 av)
  from "1.prems" have ne: "av \<noteq> []"
    using not_terminal_has_cell by fastforce
  from find_best_heuristic_move_returns [OF ne, of cur "rnd k"] "1.prems"(3) obtain a where
    best: "find_best_heuristic_move (rnd k) cur av = Inr a" and am: "a \<in> set av"
    by auto
  then have a: "a \<in> set (available_cells cur)"
    using "1.prems"(3) by simp
  from next_state_empty_cell [OF a, of "turn cur"] obtain nxt where
    nxt: "next_state cur (TicTacToe_move (a div 3) (a mod 3) (turn cur)) = Inr (Some nxt)"
    and b: "board nxt = (board cur)(a div 3 := (board cur (a div 3))(a mod 3 := turn cur))"
    and w: "winner nxt = calculate_winner nxt"
    and t: "turn nxt = (if turn cur = CHR ''x'' then CHR ''o'' else CHR ''x'')"
    by blast
  have cn: "consistent nxt"
    using w t by (simp add: consistent_def)
  let ?av' = "remove1 a av"
  have unfold: "heuristic_rollout_loop rnd k cur av =
      (if is_terminal nxt then Inr (Some nxt) else heuristic_rollout_loop rnd (Suc k) nxt ?av')"
    by (subst heuristic_rollout_loop.simps) (simp add: ne best nxt)
  show ?case
  proof (cases "is_terminal nxt")
    case True
    with unfold playout_step [OF "1.prems"(2) nxt playout_done] show ?thesis
      by auto
  next
    case False
    have s': "set ?av' = set (available_cells nxt)"
      using available_after_move [OF consistent_turn [OF "1.prems"(1)] a b] "1.prems"(3,4)
      by simp
    have len: "length ?av' < length av"
      using am ne by (simp add: length_remove1) 
    from "1.IH" len cn False s' "1.prems"(4)
    obtain t where "heuristic_rollout_loop rnd (Suc k) nxt ?av' = Inr (Some t)" "playout nxt t"
      "is_terminal t"
      by (metis distinct_remove1)
    with unfold False playout_step [OF "1.prems"(2) nxt] show ?thesis
      by auto
  qed
qed

lemma result_of_winner_range:
  "result_of_winner w \<in> {0, 1 / 2, 1}" "0 \<le> result_of_winner w" "result_of_winner w \<le> 1"
  by (simp_all add: result_of_winner_def)

text \<open>
  Claim C4. For every state the program builds (winner computed from the board, a player to
  move), \<^verbatim>\<open>rollout\<close> and \<^verbatim>\<open>heuristic_rollout\<close> return, whatever the random draws, a value among
  0, 1/2 and 1: for a terminal state the score of its own winner, without playing; otherwise
  the score of a terminal state reached by a playout from it.
\<close>

theorem rollout_value:
  assumes "consistent s"
  shows "(\<exists>v. rollout rnd s = Inr v \<and> v \<in> {0, 1 / 2, 1} \<and> 0 \<le> v \<and> v \<le> 1
            \<and> (is_terminal s \<longrightarrow>
                 v = (if winner s = CHR ''x'' then 1 else if winner s = CHR ''d'' then 1 / 2 else 0))
            \<and> (\<not> is_terminal s \<longrightarrow>
                 (\<exists>t. playout s t \<and> is_terminal t \<and> v = result_of_winner (winner t))))
       \<and> (\<exists>v. heuristic_rollout rnd s = Inr v \<and> v \<in> {0, 1 / 2, 1} \<and> 0 \<le> v \<and> v \<le> 1
            \<and> (is_terminal s \<longrightarrow>
                 v = (if winner s = CHR ''x'' then 1 else if winner s = CHR ''d'' then 1 / 2 else 0))
            \<and> (\<not> is_terminal s \<longrightarrow>
                 (\<exists>t. playout s t \<and> is_terminal t \<and> v = result_of_winner (winner t))))"
proof (cases "is_terminal s")
  case True
  then show ?thesis
    by (simp add: rollout_def heuristic_rollout_def result_of_winner_def)
next
  case False
  from rollout_loop_completes [OF assms False refl distinct_available_cells, of rnd 0]
  obtain t where t: "rollout_loop rnd 0 s (available_cells s) = Inr (Some t)" "playout s t"
    "is_terminal t"
    by blast
  from heuristic_rollout_loop_completes [OF assms False refl distinct_available_cells, of rnd 0]
  obtain u where u: "heuristic_rollout_loop rnd 0 s (available_cells s) = Inr (Some u)"
    "playout s u" "is_terminal u"
    by blast
  have v: "rollout rnd s = Inr (result_of_winner (winner t))"
    and h: "heuristic_rollout rnd s = Inr (result_of_winner (winner u))"
    using False t(1) u(1) by (simp_all add: rollout_def heuristic_rollout_def)
  have "\<exists>v. rollout rnd s = Inr v \<and> v \<in> {0, 1 / 2, 1} \<and> 0 \<le> v \<and> v \<le> 1
            \<and> (is_terminal s \<longrightarrow>
                 v = (if winner s = CHR ''x'' then 1 else if winner s = CHR ''d'' then 1 / 2 else 0))
            \<and> (\<not> is_terminal s \<longrightarrow>
                 (\<exists>t. playout s t \<and> is_terminal t \<and> v = result_of_winner (winner t)))"
    using v False t(2,3) result_of_winner_range [of "winner t"]
    by (intro exI [of _ "result_of_winner (winner t)"]) blast
  moreover have "\<exists>v. heuristic_rollout rnd s = Inr v \<and> v \<in> {0, 1 / 2, 1} \<and> 0 \<le> v \<and> v \<le> 1
            \<and> (is_terminal s \<longrightarrow>
                 v = (if winner s = CHR ''x'' then 1 else if winner s = CHR ''d'' then 1 / 2 else 0))
            \<and> (\<not> is_terminal s \<longrightarrow>
                 (\<exists>t. playout s t \<and> is_terminal t \<and> v = result_of_winner (winner t)))"
    using h False u(2,3) result_of_winner_range [of "winner u"]
    by (intro exI [of _ "result_of_winner (winner u)"]) blast
  ultimately show ?thesis
    by (rule conjI)
qed

theorem rollout_value_witness:
  "consistent TicTacToe_state_new \<and> \<not> is_terminal TicTacToe_state_new
   \<and> rollout (\<lambda>k. 0) TicTacToe_state_new = Inr 1
   \<and> heuristic_rollout (\<lambda>k. 0) TicTacToe_state_new = Inr (1 / 2)
   \<and> (\<exists>t. playout TicTacToe_state_new t \<and> is_terminal t \<and> result_of_winner (winner t) = 1)"
proof -
  have r: "rollout (\<lambda>k. 0) TicTacToe_state_new = Inr 1"
    "heuristic_rollout (\<lambda>k. 0) TicTacToe_state_new = Inr (1 / 2)"
    by code_simp+
  have n: "\<not> is_terminal TicTacToe_state_new"
    by code_simp
  from rollout_value [OF consistent_new, of "\<lambda>k. 0"] r n consistent_new show ?thesis
    by auto
qed


subsection \<open>The receiver is left unchanged\<close>

lemma delete_fresh:
  assumes "heap_ok h"
  shows "delete_state (h\<lparr>objs := (objs h)(lim h \<mapsto> x), lim := Suc (lim h)\<rparr>) (lim h)
           = h\<lparr>lim := Suc (lim h)\<rparr>"
  using heap_ok_fresh [OF assms order_refl]
  by (intro heap.equality) (simp_all add: delete_state_def fun_upd_idem)

lemma delete_fresh_after:
  assumes "heap_ok h" "c < lim h"
  shows "delete_state (delete_state (h\<lparr>objs := (objs h)(lim h \<mapsto> x), lim := Suc (lim h)\<rparr>) c) (lim h)
           = (delete_state h c)\<lparr>lim := Suc (lim h)\<rparr>"
proof -
  have "((objs h)(lim h \<mapsto> x, c := None))(lim h := None) = (objs h)(c := None)"
    using heap_ok_fresh [OF assms(1) order_refl] assms(2) by (auto simp: fun_eq_iff)
  then show ?thesis
    by (simp add: delete_state_def)
qed

lemma first_winning_at_refines:
  assumes "heap_ok h" "objs h c = Some s" "first_winning s p av = Inr r"
  shows "\<exists>l\<ge>lim h. first_winning_at h c p av = Inr (r, h\<lparr>lim := l\<rparr>)"
  using assms
proof (induction av arbitrary: h)
  case Nil
  then show ?case
    by (auto intro: exI [of _ "lim h"])
next
  case (Cons pos rest)
  let ?m = "TicTacToe_move (pos div 3) (pos mod 3) p"
  from Cons.prems(3) obtain t where t: "next_state s ?m = Inr (Some t)"
    by (auto split: sum.splits option.splits)
  let ?h1 = "h\<lparr>objs := (objs h)(lim h \<mapsto> t), lim := Suc (lim h)\<rparr>"
  have at: "next_state_at h c ?m = Inr (Some (lim h), ?h1)"
    using next_state_at_refines [OF Cons.prems(2), of ?m] t by simp
  have del: "delete_state ?h1 (lim h) = h\<lparr>lim := Suc (lim h)\<rparr>"
    by (rule delete_fresh [OF Cons.prems(1)])
  show ?case
  proof (cases "winner t = p")
    case True
    with t Cons.prems(3) have "r = Some pos"
      by simp
    with at del True show ?thesis
      by (auto intro!: exI [of _ "Suc (lim h)"])
  next
    case False
    with t Cons.prems(3) have rest: "first_winning s p rest = Inr r"
      by simp
    from Cons.IH [OF heap_ok_lim [OF Cons.prems(1), of "Suc (lim h)"] _ rest] Cons.prems(2)
    obtain l where "Suc (lim h) \<le> l"
      "first_winning_at (h\<lparr>lim := Suc (lim h)\<rparr>) c p rest = Inr (r, h\<lparr>lim := l\<rparr>)"
      by auto
    with at del False show ?thesis
      by (auto intro!: exI [of _ l])
  qed
qed

lemma find_best_heuristic_move_at_refines:
  assumes "heap_ok h" "objs h c = Some s" "find_best_heuristic_move raw s av = Inr b"
  shows "\<exists>l\<ge>lim h. find_best_heuristic_move_at raw h c av = Inr (b, h\<lparr>lim := l\<rparr>)"
proof -
  define opponent where "opponent = (if turn s = CHR ''x'' then CHR ''o'' else CHR ''x'')"
  define last :: "error + int" where
    "last = (if 4 \<in> set av then Inr 4
             else (case find (\<lambda>corner. corner \<in> set av) [0, 2, 6, 8] of
                     Some corner \<Rightarrow> Inr corner
                   | None \<Rightarrow> if av = [] then Inl Out_of_bounds
                             else Inr (av ! (raw mod length av))))"
  have pure: "find_best_heuristic_move raw s av =
      (case first_winning s (turn s) av of
         Inl e \<Rightarrow> Inl e
       | Inr (Some pos) \<Rightarrow> Inr pos
       | Inr None \<Rightarrow>
           (case first_winning s opponent av of
              Inl e \<Rightarrow> Inl e
            | Inr (Some pos) \<Rightarrow> Inr pos
            | Inr None \<Rightarrow> last))"
    unfolding find_best_heuristic_move_def opponent_def last_def ..
  have heap: "find_best_heuristic_move_at raw h c av =
      (case first_winning_at h c (turn s) av of
         Inl e \<Rightarrow> Inl e
       | Inr (Some pos, h1) \<Rightarrow> Inr (pos, h1)
       | Inr (None, h1) \<Rightarrow>
           (case first_winning_at h1 c opponent av of
              Inl e \<Rightarrow> Inl e
            | Inr (Some pos, h2) \<Rightarrow> Inr (pos, h2)
            | Inr (None, h2) \<Rightarrow> (case last of Inl e \<Rightarrow> Inl e | Inr x \<Rightarrow> Inr (x, h2))))"
    unfolding find_best_heuristic_move_at_def opponent_def last_def
    by (simp add: assms(2) del: find.simps
        split: sum.splits option.splits prod.splits)
  from assms(3) obtain r1 where r1: "first_winning s (turn s) av = Inr r1"
    unfolding pure by (auto split: sum.splits)
  from first_winning_at_refines [OF assms(1,2) r1] obtain l1 where
    l1: "lim h \<le> l1" "first_winning_at h c (turn s) av = Inr (r1, h\<lparr>lim := l1\<rparr>)"
    by blast
  show ?thesis
  proof (cases r1)
    case (Some pos)
    with assms(3) r1 have "b = pos"
      unfolding pure by simp
    with Some l1 show ?thesis
      unfolding heap by (auto intro!: exI [of _ l1])
  next
    case None
    with assms(3) r1 obtain r2 where r2: "first_winning s opponent av = Inr r2"
      unfolding pure by (auto split: sum.splits)
    from first_winning_at_refines [OF heap_ok_lim [OF assms(1) l1(1)] _ r2, of c] assms(2)
    obtain l2 where l2: "l1 \<le> l2"
      "first_winning_at (h\<lparr>lim := l1\<rparr>) c opponent av = Inr (r2, h\<lparr>lim := l2\<rparr>)"
      by auto
    from l1(1) l2(1) have le: "lim h \<le> l2"
      by simp
    show ?thesis
    proof (cases r2)
      case (Some pos)
      with assms(3) r1 r2 None have "b = pos"
        unfolding pure by simp
      with Some None l1 l2 le show ?thesis
        unfolding heap by (auto intro!: exI [of _ l2])
    next
      case N2: None
      with assms(3) r1 r2 None have "last = Inr b"
        unfolding pure by simp
      with None N2 l1 l2 le show ?thesis
        unfolding heap by (auto intro!: exI [of _ l2])
    qed
  qed
qed

lemma rollout_loop_at_refines:
  assumes "heap_ok h" "objs h c = Some cur" "rollout_loop rnd k cur av = Inr (Some t)"
  shows "\<exists>l\<ge>lim h. rollout_loop_at rnd k h c first av =
           Inr (result_of_winner (winner t), (if first then h else delete_state h c)\<lparr>lim := l\<rparr>)"
  using assms
proof (induction av arbitrary: k h c cur first rule: length_induct)
  case (1 av)
  from "1.prems"(3) have ne: "av \<noteq> []"
    by (subst (asm) rollout_loop.simps) (auto split: if_splits)
  define r where "r = rnd k mod length av"
  define a where "a = av ! r"
  let ?m = "TicTacToe_move (a div 3) (a mod 3) (turn cur)"
  let ?av' = "take r av @ drop (Suc r) av"
  from ne have "r < length av"
    by (simp add: r_def)
  then have len: "length ?av' < length av"
    by simp
  from "1.prems"(3) ne obtain nxt where nxt: "next_state cur ?m = Inr (Some nxt)"
    by (subst (asm) rollout_loop.simps)
       (auto simp: Let_def r_def a_def split: sum.splits option.splits)
  with "1.prems"(3) ne have pure:
    "(if is_terminal nxt then Inr (Some nxt) else rollout_loop rnd (Suc k) nxt ?av') = Inr (Some t)"
    by (subst (asm) rollout_loop.simps) (simp add: Let_def r_def [symmetric] a_def [symmetric])
  let ?p = "lim h"
  let ?h1 = "h\<lparr>objs := (objs h)(?p \<mapsto> nxt), lim := Suc ?p\<rparr>"
  let ?h2 = "if \<not> first then delete_state ?h1 c else ?h1"
  have at: "next_state_at h c ?m = Inr (Some ?p, ?h1)"
    using next_state_at_refines [OF "1.prems"(2), of ?m] nxt by simp
  have c: "c < ?p"
    by (rule heap_ok_live [OF "1.prems"(1,2)])
  then have live: "objs ?h2 ?p = Some nxt"
    by (simp add: delete_state_def)
  have ok2: "heap_ok ?h2"
    using "1.prems"(1) by (auto simp: heap_ok_def delete_state_def)
  have del: "delete_state ?h2 ?p = (if first then h else delete_state h c)\<lparr>lim := Suc ?p\<rparr>"
    using delete_fresh [OF "1.prems"(1)] delete_fresh_after [OF "1.prems"(1) c] by simp
  have unfold: "rollout_loop_at rnd k h c first av =
      (if is_terminal nxt then Inr (result_of_winner (winner nxt), delete_state ?h2 ?p)
       else rollout_loop_at rnd (Suc k) ?h2 ?p False ?av')"
    by (subst rollout_loop_at.simps)
       (simp add: ne "1.prems"(2) Let_def r_def [symmetric] a_def [symmetric] at live)
  show ?case
  proof (cases "is_terminal nxt")
    case True
    with pure have "t = nxt"
      by simp
    with unfold True del show ?thesis
      by (auto intro!: exI [of _ "Suc ?p"])
  next
    case False
    with pure have rest: "rollout_loop rnd (Suc k) nxt ?av' = Inr (Some t)"
      by simp
    from "1.IH" [rule_format, OF len ok2 live rest, of False]
    obtain l where l: "lim ?h2 \<le> l"
      "rollout_loop_at rnd (Suc k) ?h2 ?p False ?av' =
         Inr (result_of_winner (winner t), (delete_state ?h2 ?p)\<lparr>lim := l\<rparr>)"
      by auto
    have "lim ?h2 = Suc ?p"
      by (simp add: delete_state_def)
    with l(1) have "lim h \<le> l"
      by simp
    with unfold False l(2) del show ?thesis
      by (auto intro!: exI [of _ l])
  qed
qed

lemma heuristic_rollout_loop_at_refines:
  assumes "heap_ok h" "objs h c = Some cur" "heuristic_rollout_loop rnd k cur av = Inr (Some t)"
  shows "\<exists>l\<ge>lim h. heuristic_rollout_loop_at rnd k h c first av =
           Inr (result_of_winner (winner t), (if first then h else delete_state h c)\<lparr>lim := l\<rparr>)"
  using assms
proof (induction av arbitrary: k h c cur first rule: length_induct)
  case (1 av)
  from "1.prems"(3) have ne: "av \<noteq> []"
    by (subst (asm) heuristic_rollout_loop.simps) (auto split: if_splits)
  from "1.prems"(3) ne obtain a where best: "find_best_heuristic_move (rnd k) cur av = Inr a"
    by (subst (asm) heuristic_rollout_loop.simps) (auto split: sum.splits)
  let ?m = "TicTacToe_move (a div 3) (a mod 3) (turn cur)"
  let ?av' = "remove1 a av"
  from find_best_heuristic_move_member [OF best] ne have len: "length ?av' < length av"
    by (simp add: length_remove1)
  from "1.prems"(3) ne best obtain nxt where nxt: "next_state cur ?m = Inr (Some nxt)"
    by (subst (asm) heuristic_rollout_loop.simps) (auto split: sum.splits option.splits)
  with "1.prems"(3) ne best have pure:
    "(if is_terminal nxt then Inr (Some nxt) else heuristic_rollout_loop rnd (Suc k) nxt ?av')
       = Inr (Some t)"
    by (subst (asm) heuristic_rollout_loop.simps) simp
  from find_best_heuristic_move_at_refines [OF "1.prems"(1,2) best] obtain l0 where
    l0: "lim h \<le> l0"
    and best_at: "find_best_heuristic_move_at (rnd k) h c av = Inr (a, h\<lparr>lim := l0\<rparr>)"
    by blast
  define h0 where "h0 = h\<lparr>lim := l0\<rparr>"
  have ok0: "heap_ok h0"
    unfolding h0_def by (rule heap_ok_lim [OF "1.prems"(1) l0])
  have cur0: "objs h0 c = Some cur"
    by (simp add: h0_def "1.prems"(2))
  let ?p = "lim h0"
  let ?h1 = "h0\<lparr>objs := (objs h0)(?p \<mapsto> nxt), lim := Suc ?p\<rparr>"
  let ?h2 = "if \<not> first then delete_state ?h1 c else ?h1"
  have at: "next_state_at h0 c ?m = Inr (Some ?p, ?h1)"
    using next_state_at_refines [OF cur0, of ?m] nxt by simp
  have c: "c < ?p"
    by (rule heap_ok_live [OF ok0 cur0])
  then have live: "objs ?h2 ?p = Some nxt"
    by (simp add: delete_state_def)
  have ok2: "heap_ok ?h2"
    using ok0 by (auto simp: heap_ok_def delete_state_def)
  have del: "delete_state ?h2 ?p = (if first then h0 else delete_state h0 c)\<lparr>lim := Suc ?p\<rparr>"
    using delete_fresh [OF ok0] delete_fresh_after [OF ok0 c] by simp
  have same: "(if first then h0 else delete_state h0 c)\<lparr>lim := l\<rparr>
                = (if first then h else delete_state h c)\<lparr>lim := l\<rparr>" for l
    by (simp add: h0_def delete_state_def)
  have unfold: "heuristic_rollout_loop_at rnd k h c first av =
      (if is_terminal nxt then Inr (result_of_winner (winner nxt), delete_state ?h2 ?p)
       else heuristic_rollout_loop_at rnd (Suc k) ?h2 ?p False ?av')"
    by (subst heuristic_rollout_loop_at.simps)
       (simp add: ne best_at h0_def [symmetric] cur0 at live)
  show ?case
  proof (cases "is_terminal nxt")
    case True
    with pure have "t = nxt"
      by simp
    moreover have "lim h \<le> Suc ?p"
      using l0 by (simp add: h0_def)
    ultimately show ?thesis
      using unfold True del same [of "Suc ?p"]
      by (auto intro!: exI [of _ "Suc ?p"])
  next
    case False
    with pure have rest: "heuristic_rollout_loop rnd (Suc k) nxt ?av' = Inr (Some t)"
      by simp
    from "1.IH" [rule_format, OF len ok2 live rest, of False]
    obtain l where l: "lim ?h2 \<le> l"
      "heuristic_rollout_loop_at rnd (Suc k) ?h2 ?p False ?av' =
         Inr (result_of_winner (winner t), (delete_state ?h2 ?p)\<lparr>lim := l\<rparr>)"
      by auto
    have "lim ?h2 = Suc ?p"
      by (simp add: delete_state_def)
    with l(1) l0 have "lim h \<le> l"
      by (simp add: h0_def)
    with unfold False l(2) del same [of l] show ?thesis
      by (auto intro!: exI [of _ l])
  qed
qed

text \<open>
  Claim C9. Let the receiver be a state the program builds, allocated at \<open>this\<close>.
  \<^verbatim>\<open>actions_to_try\<close> leaves the heap as it is. \<^verbatim>\<open>next_state\<close> leaves every object allocated
  before the call as it is, the receiver included, and its result is not the receiver.
  \<^verbatim>\<open>rollout\<close> and \<^verbatim>\<open>heuristic_rollout\<close> return with every object of the initial heap as it
  was (only the allocation counter has moved: each state they allocated is deleted again),
  and with the value the simulation on the receiver's fields computes.
\<close>

theorem receiver_unchanged:
  assumes "heap_ok h" "objs h this = Some s" "consistent s"
  shows "actions_to_try_at h this = Inr (actions_to_try s, h)
       \<and> (in_bounds m \<longrightarrow>
            (\<exists>r h'. next_state_at h this m = Inr (r, h') \<and> objs h' this = Some s
               \<and> r \<noteq> Some this \<and> (\<forall>a<lim h. objs h' a = objs h a)))
       \<and> (\<exists>v l. rollout_at rnd h this = Inr (v, h\<lparr>lim := l\<rparr>)
               \<and> objs (h\<lparr>lim := l\<rparr>) this = Some s \<and> rollout rnd s = Inr v)
       \<and> (\<exists>v l. heuristic_rollout_at rnd h this = Inr (v, h\<lparr>lim := l\<rparr>)
               \<and> objs (h\<lparr>lim := l\<rparr>) this = Some s \<and> heuristic_rollout rnd s = Inr v)"
proof (intro conjI impI)
  show "actions_to_try_at h this = Inr (actions_to_try s, h)"
    by (simp add: actions_to_try_at_def assms(2))
next
  assume "in_bounds m"
  have lt: "this < lim h"
    by (rule heap_ok_live [OF assms(1,2)])
  from \<open>in_bounds m\<close> obtain r where r: "next_state s m = Inr r"
    by (cases "board s (move_x m) (move_y m) = CHR '' ''")
       (simp_all add: next_state_in_bounds Let_def)
  show "\<exists>r h'. next_state_at h this m = Inr (r, h') \<and> objs h' this = Some s
               \<and> r \<noteq> Some this \<and> (\<forall>a<lim h. objs h' a = objs h a)"
    using next_state_at_refines [OF assms(2), of m] r lt assms(2)
    by (cases r) auto
next
  show "\<exists>v l. rollout_at rnd h this = Inr (v, h\<lparr>lim := l\<rparr>)
               \<and> objs (h\<lparr>lim := l\<rparr>) this = Some s \<and> rollout rnd s = Inr v"
  proof (cases "is_terminal s")
    case True
    then have "rollout_at rnd h this = Inr (result_of_winner (winner s), h\<lparr>lim := lim h\<rparr>)"
      "rollout rnd s = Inr (result_of_winner (winner s))"
      by (simp_all add: rollout_at_def rollout_def assms(2))
    with assms(2) show ?thesis
      by (intro exI [of _ "result_of_winner (winner s)"] exI [of _ "lim h"]) simp
  next
    case False
    from rollout_loop_completes [OF assms(3) False refl distinct_available_cells, of rnd 0]
    obtain t where t: "rollout_loop rnd 0 s (available_cells s) = Inr (Some t)"
      by blast
    from rollout_loop_at_refines [OF assms(1,2) t, of True] obtain l where
      "rollout_loop_at rnd 0 h this True (available_cells s)
         = Inr (result_of_winner (winner t), h\<lparr>lim := l\<rparr>)"
      by auto
    with False t assms(2) show ?thesis
      by (intro exI [of _ "result_of_winner (winner t)"] exI [of _ l])
         (simp add: rollout_at_def rollout_def)
  qed
next
  show "\<exists>v l. heuristic_rollout_at rnd h this = Inr (v, h\<lparr>lim := l\<rparr>)
               \<and> objs (h\<lparr>lim := l\<rparr>) this = Some s \<and> heuristic_rollout rnd s = Inr v"
  proof (cases "is_terminal s")
    case True
    then have "heuristic_rollout_at rnd h this = Inr (result_of_winner (winner s), h\<lparr>lim := lim h\<rparr>)"
      "heuristic_rollout rnd s = Inr (result_of_winner (winner s))"
      by (simp_all add: heuristic_rollout_at_def heuristic_rollout_def assms(2))
    with assms(2) show ?thesis
      by (intro exI [of _ "result_of_winner (winner s)"] exI [of _ "lim h"]) simp
  next
    case False
    from heuristic_rollout_loop_completes [OF assms(3) False refl distinct_available_cells, of rnd 0]
    obtain t where t: "heuristic_rollout_loop rnd 0 s (available_cells s) = Inr (Some t)"
      by blast
    from heuristic_rollout_loop_at_refines [OF assms(1,2) t, of True] obtain l where
      "heuristic_rollout_loop_at rnd 0 h this True (available_cells s)
         = Inr (result_of_winner (winner t), h\<lparr>lim := l\<rparr>)"
      by auto
    with False t assms(2) show ?thesis
      by (intro exI [of _ "result_of_winner (winner t)"] exI [of _ l])
         (simp add: heuristic_rollout_at_def heuristic_rollout_def)
  qed
qed

theorem receiver_unchanged_witness:
  "heap_ok one_state_heap \<and> objs one_state_heap 0 = Some TicTacToe_state_new
   \<and> consistent TicTacToe_state_new \<and> in_bounds (TicTacToe_move 1 1 (CHR ''x''))
   \<and> (\<exists>r h'. next_state_at one_state_heap 0 (TicTacToe_move 1 1 (CHR ''x'')) = Inr (r, h')
         \<and> objs h' 0 = Some TicTacToe_state_new)
   \<and> (\<exists>l. rollout_at (\<lambda>k. 0) one_state_heap 0 = Inr (1, one_state_heap\<lparr>lim := l\<rparr>))
   \<and> (\<exists>l. heuristic_rollout_at (\<lambda>k. 0) one_state_heap 0 = Inr (1 / 2, one_state_heap\<lparr>lim := l\<rparr>))"
proof -
  have ok: "heap_ok one_state_heap"
    by (simp add: heap_ok_def one_state_heap_def)
  have s: "objs one_state_heap 0 = Some TicTacToe_state_new"
    by (simp add: one_state_heap_def)
  have b: "in_bounds (TicTacToe_move 1 1 (CHR ''x''))"
    by (simp add: in_bounds_def)
  have r: "rollout (\<lambda>k. 0) TicTacToe_state_new = Inr 1"
    "heuristic_rollout (\<lambda>k. 0) TicTacToe_state_new = Inr (1 / 2)"
    by code_simp+
  from receiver_unchanged [OF ok s consistent_new, of "TicTacToe_move 1 1 (CHR ''x'')" "\<lambda>k. 0"]
    ok s b r consistent_new
  show ?thesis
    by auto
qed


section \<open>Properties of the rollout dispatch\<close>

lemma round_to_even_of_int: "round_to_even (of_int n) = n"
  by (simp add: round_to_even_def)

lemma round_to_even_le: "x \<le> of_int n \<Longrightarrow> round_to_even x \<le> n"
  unfolding round_to_even_def Let_def
  by (auto split: if_splits) linarith+

lemma round_to_even_ge: "of_int n \<le> x \<Longrightarrow> n \<le> round_to_even x"
  unfolding round_to_even_def Let_def
  by (auto split: if_splits) linarith+

lemma to_double_one: "to_double 1 = 1"
proof -
  have "(2::real) powr 52 = of_int (2 ^ 52)"
    by simp
  then have "round_to_even (2 powr 52) = 2 ^ 52"
    by (simp only: round_to_even_of_int)
  then show ?thesis
    by (simp add: to_double_def powr_minus)
qed

lemma to_double_nonneg:
  assumes "0 \<le> x"
  shows "0 \<le> to_double x"
proof (cases "x = 0")
  case True
  then show ?thesis by (simp add: to_double_def)
next
  case False
  let ?e = "\<lfloor>log 2 \<bar>x\<bar>\<rfloor>"
  have "of_int 0 \<le> x * 2 powr of_int (52 - ?e)"
    using assms by simp
  then have "0 \<le> round_to_even (x * 2 powr of_int (52 - ?e))"
    by (rule round_to_even_ge)
  with False show ?thesis
    by (simp add: to_double_def Let_def)
qed

text \<open>Rounding stays within the binade of its argument.\<close>

lemma to_double_binade:
  assumes "2 powr of_int e \<le> x" "x < 2 powr of_int (e + 1)"
  shows "2 powr of_int e \<le> to_double x" "to_double x \<le> 2 powr of_int (e + 1)"
proof -
  have pos: "0 < x"
    using assms(1) by (smt (verit) powr_gt_zero)
  then have fl: "\<lfloor>log 2 \<bar>x\<bar>\<rfloor> = e"
    using assms by (simp add: floor_log_eq_powr_iff)
  let ?s = "(2::real) powr of_int (52 - e)"
  let ?u = "(2::real) powr of_int (e - 52)"
  have td: "to_double x = of_int (round_to_even (x * ?s)) * ?u"
    using pos fl by (simp add: to_double_def)
  have su: "?s * ?u = 1"
    by (simp flip: powr_add)
  have lo: "2 powr of_int e * ?s = of_int (2 ^ 52)"
    by (simp flip: powr_add)
  have hi: "2 powr of_int (e + 1) * ?s = of_int (2 ^ 53)"
    by (simp flip: powr_add)
  define n where "n = round_to_even (x * ?s)"
  have td': "to_double x = of_int n * ?u"
    by (simp only: td n_def)
  have u0: "0 \<le> ?u"
    by simp
  have "of_int (2 ^ 52) \<le> x * ?s"
    using assms(1) lo by (metis mult_right_mono powr_ge_zero)
  then have "2 ^ 52 \<le> n"
    unfolding n_def by (rule round_to_even_ge)
  then have n1: "real_of_int (2 ^ 52) \<le> real_of_int n"
    by (simp only: of_int_le_iff)
  have "2 powr of_int e = real_of_int (2 ^ 52) * ?u"
    using lo su by (metis mult.assoc mult.right_neutral)
  also have "\<dots> \<le> real_of_int n * ?u"
    using n1 u0 by (rule mult_right_mono)
  finally show "2 powr of_int e \<le> to_double x"
    by (simp only: td')
  have "x * ?s \<le> of_int (2 ^ 53)"
    using assms(2) hi by (metis less_eq_real_def mult_right_mono powr_ge_zero)
  then have "n \<le> 2 ^ 53"
    unfolding n_def by (rule round_to_even_le)
  then have n2: "real_of_int n \<le> real_of_int (2 ^ 53)"
    by (simp only: of_int_le_iff)
  have "real_of_int n * ?u \<le> real_of_int (2 ^ 53) * ?u"
    using n2 u0 by (rule mult_right_mono)
  also have "\<dots> = 2 powr of_int (e + 1)"
    using hi su by (metis mult.assoc mult.right_neutral)
  finally show "to_double x \<le> 2 powr of_int (e + 1)"
    by (simp only: td')
qed

lemma to_double_ge_half: "1 / 2 \<le> x \<Longrightarrow> x < 1 \<Longrightarrow> 1 / 2 \<le> to_double x"
  using to_double_binade(1) [of "-1" x] by (simp add: powr_minus)

lemma to_double_le_quarter: "1 / 8 \<le> x \<Longrightarrow> x < 1 / 4 \<Longrightarrow> to_double x \<le> 1 / 4"
  using to_double_binade(2) [of "-3" x] by (simp add: powr_minus)

lemma to_double_below_one:
  assumes "0 \<le> x" "x \<le> 1 - 1 / 2 ^ 53"
  shows "to_double x < 1"
proof (cases "x = 0")
  case True
  then show ?thesis by (simp add: to_double_def)
next
  case False
  with assms(1) have pos: "0 < x"
    by simp
  define e where "e = \<lfloor>log 2 \<bar>x\<bar>\<rfloor>"
  from pos have bin: "2 powr of_int e \<le> x" "x < 2 powr of_int (e + 1)"
    using floor_log_eq_powr_iff [of x 2 e] by (simp_all add: e_def)
  from assms(2) have "x < 2 powr 0"
    by simp
  with bin(1) have lt: "2 powr of_int e < 2 powr (0::real)"
    by linarith
  have "real_of_int e < 0"
  proof (rule powr_less_cancel [of 2])
    show "2 powr real_of_int e < 2 powr 0"
      by (rule lt)
  qed simp
  then have neg: "e < 0"
    by simp
  show ?thesis
  proof (cases "e = -1")
    case True
    from True have fl: "\<lfloor>log 2 \<bar>x\<bar>\<rfloor> = -1"
      by (simp only: e_def)
    have td: "to_double x = of_int (round_to_even (x * 2 powr 53)) * 2 powr (- 53)"
      using pos fl by (simp add: to_double_def)
    have "x * 2 ^ 53 \<le> (1 - 1 / 2 ^ 53) * 2 ^ 53"
      using assms(2) by (intro mult_right_mono) simp_all
    also have "\<dots> = real_of_int (2 ^ 53 - 1)"
      by simp
    finally have "round_to_even (x * 2 powr 53) \<le> 2 ^ 53 - 1"
      by (intro round_to_even_le) simp
    then have "real_of_int (round_to_even (x * 2 powr 53)) \<le> real_of_int (2 ^ 53 - 1)"
      by (simp only: of_int_le_iff)
    then have "to_double x \<le> real_of_int (2 ^ 53 - 1) * 2 powr (- 53)"
      unfolding td by (intro mult_right_mono) simp_all
    also have "\<dots> < 1"
      by (simp add: powr_minus)
    finally show ?thesis .
  next
    case False
    with neg have "e + 1 \<le> -1"
      by simp
    then have "(2::real) powr of_int (e + 1) \<le> 2 powr of_int (-1)"
      by (simp only: powr_le_cancel_iff of_int_le_iff)
    with to_double_binade(2) [OF bin] have "to_double x \<le> 2 powr of_int (-1)"
      by linarith
    then show ?thesis
      by (simp add: powr_minus)
  qed
qed

text \<open>A quotient just below a ratio is rounded up to it: the exact quotient
  \<open>1073741823 / 2147483647\<close> is below \<open>1/2 - 1/2^32\<close>, the double is equal to it.\<close>

lemma to_double_example:
  "to_double (1073741823 / 2147483647) = 1 / 2 - 1 / 2 ^ 32"
proof -
  let ?x = "1073741823 / 2147483647 :: real"
  have "\<lfloor>log 2 \<bar>?x\<bar>\<rfloor> = -2"
    by (subst floor_log_eq_powr_iff) (simp_all add: powr_minus)
  then have "to_double ?x = of_int (round_to_even (?x * 2 powr 54)) * 2 powr (- 54)"
    by (simp add: to_double_def)
  moreover have "round_to_even (?x * 2 powr 54) = 2 ^ 53 - 2 ^ 22"
    by (simp add: round_to_even_def Let_def)
  ultimately show ?thesis
    by (simp add: powr_minus)
qed


lemma run_fixed_strategies:
  "fst (run rand RAND_MAX ratio ro hro HEURISTIC st g) = (Called_heuristic_rollout, hro st)"
  "fst (run rand RAND_MAX ratio ro hro HEAVY st g) = (Called_heuristic_rollout, hro st)"
  "fst (run rand RAND_MAX ratio ro hro RANDOM st g) = (Called_rollout, ro st)"
  by (simp_all add: run_def)

lemma run_mixed_ratio_zero:
  assumes "0 \<le> fst (rand g)" "0 < RAND_MAX"
  shows "fst (run rand RAND_MAX 0 ro hro MIXED st g) = (Called_rollout, ro st)"
proof -
  from assms have "0 \<le> to_double (real_of_int (fst (rand g)) / real_of_int RAND_MAX)"
    by (intro to_double_nonneg) simp
  then show ?thesis
    by (cases "rand g") (simp add: run_def not_less)
qed

lemma run_mixed_ratio_one_below:
  assumes "0 \<le> fst (rand g)" "fst (rand g) < RAND_MAX" "RAND_MAX \<le> 2 ^ 53"
  shows "fst (run rand RAND_MAX 1 ro hro MIXED st g) = (Called_heuristic_rollout, hro st)"
proof -
  let ?r = "real_of_int (fst (rand g))" and ?m = "real_of_int RAND_MAX"
  from assms have m: "0 < ?m" "?m \<le> 2 ^ 53"
    by (simp, simp flip: of_int_le_iff)
  from assms(2) have "?r \<le> ?m - 1"
    by (simp flip: of_int_diff)
  then have "?r / ?m \<le> (?m - 1) / ?m"
    using m(1) by (simp add: divide_right_mono)
  also have "\<dots> = 1 - 1 / ?m"
    using m(1) by (simp add: diff_divide_distrib)
  also have "\<dots> \<le> 1 - 1 / 2 ^ 53"
    using m by (simp add: frac_le)
  finally have "to_double (?r / ?m) < 1"
    using assms(1) m(1) by (intro to_double_below_one) simp_all
  then show ?thesis
    by (cases "rand g") (simp add: run_def)
qed

text \<open>The rounding decides: at this draw the exact quotient is below the ratio and a comparison
  of exact quotients would call \<^verbatim>\<open>heuristic_rollout\<close>; the doubles are equal and the job calls
  \<^verbatim>\<open>rollout\<close>.\<close>

lemma run_rounded_quotient:
  "fst (run (\<lambda>g. (1073741823, g)) 2147483647 (1 / 2 - 1 / 2 ^ 32) ro hro MIXED st g)
     = (Called_rollout, ro st)
   \<and> (1073741823 / 2147483647 :: real) < 1 / 2 - 1 / 2 ^ 32"
  by (simp add: run_def to_double_example)

text \<open>
  Claim C2. The fixed strategies dispatch as stated, and so does Mixed with ratio 0
  (\<open>run_fixed_strategies\<close>, \<open>run_mixed_ratio_zero\<close>). Under Mixed with ratio 1 a draw
  below \<open>RAND_MAX\<close> calls \<^verbatim>\<open>heuristic_rollout\<close> (\<open>run_mixed_ratio_one_below\<close>), but the
  comparison is strict: when \<^verbatim>\<open>rand()\<close> returns \<open>RAND_MAX\<close> the quotient is 1, \<open>1 < 1\<close> fails
  and the job calls \<^verbatim>\<open>rollout\<close>.
\<close>

theorem run_mixed_ratio_one_at_RAND_MAX:
  assumes "0 < RAND_MAX"
  shows "fst (rand_top RAND_MAX g) = RAND_MAX
       \<and> fst (run (rand_top RAND_MAX) RAND_MAX 1 ro hro MIXED st g) = (Called_rollout, ro st)"
  using assms by (simp add: run_def rand_top_def to_double_one)

theorem run_mixed_ratio_one_at_RAND_MAX_witness:
  "(0::int) < 2147483647
   \<and> fst (fst (run (rand_top 2147483647) 2147483647 1 (\<lambda>s::unit. 0) (\<lambda>s. 1) MIXED () ())) = Called_rollout"
  using run_mixed_ratio_one_at_RAND_MAX [of 2147483647 "()" "\<lambda>s::unit. 0" "\<lambda>s. 1" "()"]
  by simp

lemma run_rand_state:
  "snd (run rand RAND_MAX ratio ro hro MIXED st g) = snd (rand g)"
  "snd (run rand RAND_MAX ratio ro hro RANDOM st g) = g"
  "snd (run rand RAND_MAX ratio ro hro HEURISTIC st g) = g"
  "snd (run rand RAND_MAX ratio ro hro HEAVY st g) = g"
  by (simp_all add: run_def split: prod.splits)

lemma c_rand_1: "c_rand 1 = (16838, 1103527590)"
  by (simp add: c_rand_def)

lemma c_rand_2: "c_rand 1103527590 = (5758, 2524885223)"
  by (simp add: c_rand_def)

text \<open>
  Claim C7. The draw of the Mixed strategy is \<^verbatim>\<open>rand()\<close>, whose state belongs to the process
  and is advanced by every job that draws (\<open>run_rand_state\<close>); it is not a generator of the
  executing thread. With the portable \<^verbatim>\<open>rand()\<close>, seed 1 and ratio 1/2: a Mixed job calls
  \<^verbatim>\<open>rollout\<close> when no job drew before it, and \<^verbatim>\<open>heuristic_rollout\<close> when another worker's
  Mixed job drew first.
\<close>

theorem run_mixed_draw_shared:
  "fst (snd (run_two c_rand 32767 (1/2) ro hro RANDOM MIXED st 1)) = Called_rollout
   \<and> fst (snd (run_two c_rand 32767 (1/2) ro hro MIXED MIXED st 1)) = Called_heuristic_rollout"
proof -
  have "1 / 2 \<le> to_double (16838 / 32767)"
    by (rule to_double_ge_half) simp_all
  moreover have "to_double (5758 / 32767) \<le> 1 / 4"
    by (rule to_double_le_quarter) simp_all
  ultimately show ?thesis
    by (simp add: run_two_def run_def c_rand_1 [simplified] c_rand_2 not_less)
qed


section \<open>Properties of the Python state wrapper\<close>

text \<open>
  Claim C8. \<^verbatim>\<open>SerializedPythonState::next_state\<close> never returns null; when the Python
  \<^verbatim>\<open>next_state\<close> callback (or the conversion of the move) throws, the result is a new wrapper
  around the unchanged current Python state.
\<close>

theorem SerializedPythonState_next_state_not_null:
  "SerializedPythonState_next_state py_next_state py_cast this move \<noteq> None
   \<and> (py_next_state (python_state this) py_move = Throws \<longrightarrow>
        SerializedPythonState_next_state py_next_state py_cast this (PythonMoveWrapper py_move)
          = Some (SerializedPythonState_new (python_state this)))
   \<and> (py_cast m = Throws \<longrightarrow>
        SerializedPythonState_next_state py_next_state py_cast this (Other_move m)
          = Some (SerializedPythonState_new (python_state this)))
   \<and> python_state (SerializedPythonState_new (python_state this)) = python_state this"
  by (simp add: SerializedPythonState_next_state_def SerializedPythonState_new_def
      split: outcome.splits MCTS_move_arg.splits)

theorem SerializedPythonState_next_state_not_null_witness:
  "(\<lambda>(s::nat) (m::nat). (Throws :: nat outcome)) 7 3 = Throws
   \<and> SerializedPythonState_next_state (\<lambda>(s::nat) (m::nat). Throws) (\<lambda>m::nat. Returns m)
        \<lparr>python_state = 7, cached_python_moves = [3]\<rparr> (PythonMoveWrapper 3)
      = Some \<lparr>python_state = 7, cached_python_moves = []\<rparr>"
  using SerializedPythonState_next_state_not_null
    [of "\<lambda>(s::nat) (m::nat). Throws" "\<lambda>m::nat. Returns m"
        "\<lparr>python_state = 7, cached_python_moves = [3]\<rparr>" "PythonMoveWrapper 3" 3 0]
  by (simp add: SerializedPythonState_new_def)


section \<open>Properties of the queue and vector conversion\<close>

lemma drain_append: "drain q result = result @ q"
  by (induction q arbitrary: result) simp_all

lemma foldl_push: "foldl (\<lambda>q move. q @ [move]) acc vec = acc @ vec"
  by (induction vec arbitrary: acc) simp_all

text \<open>
  Claim C10. \<^verbatim>\<open>queue_to_vector\<close> of the null pointer is the empty vector, and
  \<^verbatim>\<open>queue_to_vector (vector_to_queue v)\<close> is \<open>v\<close>: the same pointers in the same order.
\<close>

theorem queue_vector_round_trip:
  "queue_to_vector None = [] \<and> queue_to_vector (vector_to_queue v) = v"
  by (simp add: queue_to_vector_def vector_to_queue_def drain_append foldl_push)


section \<open>Properties of the UCT child selection\<close>

lemma first_index_Some_iff:
  "first_index P xs = Some i \<longleftrightarrow> i < length xs \<and> P (xs ! i) \<and> (\<forall>j<i. \<not> P (xs ! j))"
proof (induction xs arbitrary: i)
  case Nil
  then show ?case by simp
next
  case (Cons x xs)
  show ?case
  proof (cases "P x")
    case True
    then show ?thesis by (cases i) auto
  next
    case False
    show ?thesis
    proof (cases i)
      case 0
      with False show ?thesis by auto
    next
      case (Suc k)
      have "(\<forall>j<Suc k. \<not> P ((x # xs) ! j)) \<longleftrightarrow> (\<forall>j<k. \<not> P (xs ! j))"
        using False by (auto simp: less_Suc_eq_0_disj)
      with False Suc Cons.IH [of k] show ?thesis by auto
    qed
  qed
qed

lemma first_index_None_iff: "first_index P xs = None \<longleftrightarrow> (\<forall>x\<in>set xs. \<not> P x)"
  by (induction xs) auto

lemma list_has_max:
  fixes f :: "'a \<Rightarrow> real"
  assumes "xs \<noteq> []"
  shows "\<exists>x\<in>set xs. \<forall>y\<in>set xs. f y \<le> f x"
proof -
  have fin: "finite (f ` set xs)" and ne: "f ` set xs \<noteq> {}"
    using assms by auto
  then have "Max (f ` set xs) \<in> f ` set xs"
    by (rule Max_in)
  then obtain x where "x \<in> set xs" "f x = Max (f ` set xs)"
    by auto
  with fin show ?thesis
    by (metis Max_ge imageI)
qed

text \<open>
  Claim C5. With at least one child, \<^verbatim>\<open>select_best_child\<close> returns a child. If some child has
  no visit, the result is the first such child in the children list, whatever the visits
  of the children before it. If every child has visits, the result has the greatest UCT
  score, and every child before it has a strictly smaller one: ties go to the lowest index.
\<close>

theorem select_best_child_order:
  assumes "children self \<noteq> []"
  shows "\<exists>i. select_best_child c self = Some i \<and> i < length (children self)
     \<and> ((\<exists>j<length (children self). visits (children self ! j) = 0) \<longrightarrow>
          visits (children self ! i) = 0 \<and> (\<forall>j<i. visits (children self ! j) \<noteq> 0))
     \<and> ((\<forall>j<length (children self). visits (children self ! j) \<noteq> 0) \<longrightarrow>
          (\<forall>j<length (children self). UCT c self (children self ! j) \<le> UCT c self (children self ! i))
          \<and> (\<forall>j<i. UCT c self (children self ! j) < UCT c self (children self ! i)))"
proof (cases "first_index (\<lambda>child. visits child = 0) (children self)")
  case (Some i)
  then have "select_best_child c self = Some i"
    by (simp add: select_best_child_def)
  moreover from Some have "i < length (children self)" "visits (children self ! i) = 0"
    "\<forall>j<i. visits (children self ! j) \<noteq> 0"
    by (simp_all add: first_index_Some_iff)
  ultimately show ?thesis by auto
next
  case None
  let ?cs = "children self"
  let ?best = "\<lambda>child. list_all (\<lambda>other. UCT c self other \<le> UCT c self child) ?cs"
  from None have nz: "\<forall>x\<in>set ?cs. visits x \<noteq> 0"
    by (simp add: first_index_None_iff)
  from list_has_max [OF assms, of "UCT c self"] have "\<exists>x\<in>set ?cs. ?best x"
    by (simp add: list_all_iff)
  then have "first_index ?best ?cs \<noteq> None"
    by (simp add: first_index_None_iff)
  then obtain i where i: "first_index ?best ?cs = Some i"
    by auto
  then have sel: "select_best_child c self = Some i"
    using None by (simp add: select_best_child_def)
  from i have il: "i < length ?cs" and ib: "?best (?cs ! i)"
    and before: "\<forall>j<i. \<not> ?best (?cs ! j)"
    by (simp_all add: first_index_Some_iff)
  from ib have mx: "\<forall>j<length ?cs. UCT c self (?cs ! j) \<le> UCT c self (?cs ! i)"
    by (simp add: list_all_iff)
  have strict: "\<forall>j<i. UCT c self (?cs ! j) < UCT c self (?cs ! i)"
  proof (intro allI impI)
    fix j assume "j < i"
    with before have "\<not> ?best (?cs ! j)" by simp
    then obtain other where o: "other \<in> set ?cs" "UCT c self (?cs ! j) < UCT c self other"
      by (auto simp: list_all_iff not_le)
    from o(1) ib have "UCT c self other \<le> UCT c self (?cs ! i)"
      by (simp add: list_all_iff)
    with o(2) show "UCT c self (?cs ! j) < UCT c self (?cs ! i)" by simp
  qed
  from nz have "\<not> (\<exists>j<length ?cs. visits (?cs ! j) = 0)" by auto
  with sel il mx strict show ?thesis by auto
qed

theorem select_best_child_order_witness:
  "children (MCTS_node 3 2 True [MCTS_node 3 2 True [], MCTS_node 0 0 False [], MCTS_node 0 0 False []]) \<noteq> []
   \<and> select_best_child (141/100)
        (MCTS_node 3 2 True [MCTS_node 3 2 True [], MCTS_node 0 0 False [], MCTS_node 0 0 False []])
      = Some 1"
proof -
  let ?n = "MCTS_node 3 2 True [MCTS_node 3 2 True [], MCTS_node 0 0 False [], MCTS_node 0 0 False []]"
  have ne: "children ?n \<noteq> []"
    by simp
  from select_best_child_order [OF ne, of "141/100"] obtain i where
    i: "select_best_child (141/100) ?n = Some i" "i < length (children ?n)"
    and z: "(\<exists>j<length (children ?n). visits (children ?n ! j) = 0) \<longrightarrow>
          visits (children ?n ! i) = 0 \<and> (\<forall>j<i. visits (children ?n ! j) \<noteq> 0)"
    by blast
  have "\<exists>j<length (children ?n). visits (children ?n ! j) = 0"
    by (rule exI [of _ 1]) simp
  with z have v: "visits (children ?n ! i) = 0" and before: "\<forall>j<i. visits (children ?n ! j) \<noteq> 0"
    by blast+
  from i(2) have "i = 0 \<or> i = 1 \<or> i = 2"
    by auto
  moreover have "i \<noteq> 0"
  proof
    assume "i = 0"
    with v show False by simp
  qed
  moreover have "i \<noteq> 2"
  proof
    assume "i = 2"
    with before [rule_format, of 1] show False by simp
  qed
  ultimately have "i = 1"
    by blast
  with i(1) ne show ?thesis
    by simp
qed


section \<open>Properties of the declared interface\<close>

text \<open>
  Claim C6. The contract \<^verbatim>\<open>MCTS_state\<close> declares \<^verbatim>\<open>is_self_side_turn\<close> and no \<^verbatim>\<open>player1_turn\<close>,
  and so does the trampoline of pybind/py_wrappers.h. But \<^verbatim>\<open>TicTacToe_state\<close> declares
  \<^verbatim>\<open>player1_turn\<close> (an override that matches nothing in the contract) and neither
  \<^verbatim>\<open>is_self_side_turn\<close> nor \<^verbatim>\<open>clone\<close>; the other version of the trampoline does the same.
\<close>

theorem state_interface_turn_operations:
  "turn_operations MCTS_state_members = [''is_self_side_turn'']
   \<and> turn_operations TicTacToe_state_members = [''player1_turn'']
   \<and> turn_operations PyMCTS_state_members = [''is_self_side_turn'']
   \<and> turn_operations PyMCTS_state_members_other = [''player1_turn'']
   \<and> missing_overrides MCTS_state_members TicTacToe_state_members = [''is_self_side_turn'', ''clone'']
   \<and> dangling_overrides MCTS_state_members TicTacToe_state_members = [''player1_turn'']"
  by (simp add: turn_operations_def missing_overrides_def dangling_overrides_def
      MCTS_state_members_def TicTacToe_state_members_def PyMCTS_state_members_def
      PyMCTS_state_members_other_def)

end
